theory Spec2Isabelle
  imports Complex_Main
begin

section \<open>Data model\<close>

text \<open>
  The exceptions the analysed Python code can raise: \<open>ValueError\<close> (raised by the
  detectors when the image cannot be loaded), \<open>IndexError\<close> (an array read out of
  range) and \<open>ZeroDivisionError\<close> (a true division of Python numbers by zero).
\<close>

datatype error = ValueError | IndexError | ZeroDivisionError

text \<open>
  A two-dimensional numpy array is a list of rows. \<open>shape0\<close> and \<open>shape1\<close> are
  \<open>a.shape[0]\<close> and \<open>a.shape[1]\<close>; \<open>is_array\<close> says that all rows have the same
  length, which every numpy array satisfies.
\<close>

type_synonym 'a grid = "'a list list"

definition shape0 :: "'a grid \<Rightarrow> nat" where
  "shape0 g = length g"

definition shape1 :: "'a grid \<Rightarrow> nat" where
  "shape1 g = (case g of [] \<Rightarrow> 0 | r # _ \<Rightarrow> length r)"

definition is_array :: "'a grid \<Rightarrow> bool" where
  "is_array g \<longleftrightarrow> (\<forall>r \<in> set g. length r = shape1 g)"

definition same_shape :: "'a grid \<Rightarrow> 'b grid \<Rightarrow> bool" where
  "same_shape a b \<longleftrightarrow> shape0 a = shape0 b \<and> shape1 a = shape1 b"

text \<open>All pixel coordinates \<open>(row, column)\<close> of an array, in row-major order.\<close>

definition indices :: "'a grid \<Rightarrow> (nat \<times> nat) list" where
  "indices g = concat (map (\<lambda>y. map (\<lambda>x. (y, x)) [0..<shape1 g]) [0..<shape0 g])"

text \<open>
  Reading \<open>a[y, x]\<close> with Python integers: a negative index counts from the end of
  its axis, and an index outside \<open>[-n, n)\<close> raises \<open>IndexError\<close>.
\<close>

definition np_index :: "nat \<Rightarrow> int \<Rightarrow> error + nat" where
  "np_index n i =
     (let j = (if i < 0 then int n + i else i)
      in if 0 \<le> j \<and> j < int n then Inr (nat j) else Inl IndexError)"

definition np_get :: "'a grid \<Rightarrow> int \<Rightarrow> int \<Rightarrow> error + 'a" where
  "np_get g y x =
     (case np_index (shape0 g) y of
        Inl e \<Rightarrow> Inl e
      | Inr i \<Rightarrow>
          (case np_index (shape1 g) x of
             Inl e \<Rightarrow> Inl e
           | Inr j \<Rightarrow> Inr (g ! i ! j)))"

text \<open>
  \<open>np.unique\<close>: the sorted distinct values of an array. \<open>np.max\<close> of a label map:
  the largest value; on an array without elements it raises \<open>ValueError\<close>.
\<close>

definition np_unique :: "nat grid \<Rightarrow> nat list" where
  "np_unique g = sort (remdups (concat g))"

definition np_max :: "nat grid \<Rightarrow> error + nat" where
  "np_max g = (if concat g = [] then Inl ValueError else Inr (fold max (concat g) 0))"

text \<open>
  Python's \<open>int(f)\<close> on a float truncates toward zero; true division \<open>a / b\<close> of
  Python numbers raises \<open>ZeroDivisionError\<close> when \<open>b\<close> is zero. Floats are modelled by
  exact rationals.
\<close>

definition py_int :: "rat \<Rightarrow> int" where
  "py_int q = (if q < 0 then \<lceil>q\<rceil> else \<lfloor>q\<rfloor>)"

definition py_truediv :: "rat \<Rightarrow> rat \<Rightarrow> error + rat" where
  "py_truediv a b = (if b = 0 then Inl ZeroDivisionError else Inr (a / b))"

section \<open>Region properties\<close>

text \<open>
  \<open>skimage.measure.regionprops(label_image)\<close> yields one region per positive label
  that occurs in the label image, in increasing label order; label 0 is background.
  A region knows its label and the coordinates of its pixels (row-major); its area is
  the number of pixels and its centroid the mean of the coordinates. On a label image
  without elements the library raises \<open>ValueError\<close> instead (it takes the largest
  label first); \<open>regionprops\<close> below is the list of regions of a label image that has
  elements, and \<open>myotube_metrics\<close>, which can be given an empty one, takes that failure
  before it uses the regions.
\<close>

record region =
  label :: nat
  coords :: "(nat \<times> nat) list"

definition area :: "region \<Rightarrow> nat" where
  "area r = length (coords r)"

definition centroid :: "region \<Rightarrow> rat \<times> rat" where
  "centroid r =
     (of_nat (sum_list (map fst (coords r))) / of_nat (area r),
      of_nat (sum_list (map snd (coords r))) / of_nat (area r))"

definition label_coords :: "nat grid \<Rightarrow> nat \<Rightarrow> (nat \<times> nat) list" where
  "label_coords L l = filter (\<lambda>(y, x). L ! y ! x = l) (indices L)"

definition positive_labels :: "nat grid \<Rightarrow> nat list" where
  "positive_labels L = filter (\<lambda>l. 0 < l) (np_unique L)"

definition regionprops :: "nat grid \<Rightarrow> region list" where
  "regionprops L =
     map (\<lambda>l. \<lparr>label = l, coords = label_coords L l\<rparr>) (positive_labels L)"

section \<open>Nuclei detection: the count\<close>

text \<open>
  \<open>detect_nuclei\<close> reports \<open>nuclei_count = np.max(labels)\<close>, the largest label of the
  watershed label map.
\<close>

definition nuclei_count :: "nat grid \<Rightarrow> error + nat" where
  "nuclei_count labels = np_max labels"

section \<open>Relationship analysis\<close>

text \<open>
  The part of \<open>analyze_nuclei_myotube_relationship\<close> after the two detectors have
  returned: it takes the nuclei label map and the filtered myotube mask. The loop runs
  over the positive labels; its state is the two counters and the two result lists.
\<close>

record rel_state =
  nuclei_within_myotubes :: nat
  nuclei_outside_myotubes :: nat
  nuclei_centroids :: "(rat \<times> rat) list"
  nuclei_in_myotube :: "bool list"

record rel_result =
  res_total_nuclei :: nat
  res_nuclei_within_myotubes :: nat
  res_nuclei_outside_myotubes :: nat
  res_percentage_within_myotubes :: rat
  res_nuclei_centroids :: "(rat \<times> rat) list"
  res_nuclei_in_myotube :: "bool list"

text \<open>\<open>(nuclei_labels == nucleus_label).astype(int)\<close>\<close>

definition nucleus_mask :: "nat grid \<Rightarrow> nat \<Rightarrow> nat grid" where
  "nucleus_mask labels l = map (map (\<lambda>v. if v = l then 1 else 0)) labels"

text \<open>
  The test \<open>y < shape[0] and x < shape[1] and myotube_mask[y, x] > 0\<close>: the read is
  only evaluated when both comparisons hold.
\<close>

definition centroid_in_mask :: "nat grid \<Rightarrow> rat \<times> rat \<Rightarrow> error + bool" where
  "centroid_in_mask myotube_mask c =
     (let y = py_int (fst c); x = py_int (snd c)
      in if y < int (shape0 myotube_mask) \<and> x < int (shape1 myotube_mask)
         then (case np_get myotube_mask y x of
                 Inl e \<Rightarrow> Inl e
               | Inr v \<Rightarrow> Inr (0 < v))
         else Inr False)"

definition classify_nucleus :: "nat grid \<Rightarrow> nat grid \<Rightarrow> nat \<Rightarrow> rel_state \<Rightarrow> error + rel_state" where
  "classify_nucleus labels myotube_mask l s =
     (case regionprops (nucleus_mask labels l) of
        [] \<Rightarrow> Inr s
      | r # _ \<Rightarrow>
          (let c = centroid r;
               s1 = s\<lparr>nuclei_centroids := nuclei_centroids s @ [c]\<rparr>
           in case centroid_in_mask myotube_mask c of
                Inl e \<Rightarrow> Inl e
              | Inr True \<Rightarrow>
                  Inr (s1\<lparr>nuclei_within_myotubes := nuclei_within_myotubes s1 + 1,
                          nuclei_in_myotube := nuclei_in_myotube s1 @ [True]\<rparr>)
              | Inr False \<Rightarrow>
                  Inr (s1\<lparr>nuclei_outside_myotubes := nuclei_outside_myotubes s1 + 1,
                          nuclei_in_myotube := nuclei_in_myotube s1 @ [False]\<rparr>)))"

fun classify_all :: "nat grid \<Rightarrow> nat grid \<Rightarrow> nat list \<Rightarrow> rel_state \<Rightarrow> error + rel_state" where
  "classify_all labels myotube_mask [] s = Inr s"
| "classify_all labels myotube_mask (l # ls) s =
     (case classify_nucleus labels myotube_mask l s of
        Inl e \<Rightarrow> Inl e
      | Inr s' \<Rightarrow> classify_all labels myotube_mask ls s')"

text \<open>
  \<open>(nuclei_within_myotubes / total_nuclei) * 100 if total_nuclei > 0 else 0\<close>
\<close>

definition percentage_within :: "nat \<Rightarrow> nat \<Rightarrow> error + rat" where
  "percentage_within n_within n_total =
     (if 0 < n_total
      then (case py_truediv (of_nat n_within) (of_nat n_total) of
              Inl e \<Rightarrow> Inl e
            | Inr q \<Rightarrow> Inr (q * 100))
      else Inr 0)"

definition analyze_relationship :: "nat grid \<Rightarrow> nat grid \<Rightarrow> error + rel_result" where
  "analyze_relationship nuclei_labels myotube_mask =
     (case classify_all nuclei_labels myotube_mask (positive_labels nuclei_labels)
             \<lparr>nuclei_within_myotubes = 0, nuclei_outside_myotubes = 0,
              nuclei_centroids = [], nuclei_in_myotube = []\<rparr> of
        Inl e \<Rightarrow> Inl e
      | Inr s \<Rightarrow>
          (let total_nuclei = nuclei_within_myotubes s + nuclei_outside_myotubes s
           in case percentage_within (nuclei_within_myotubes s) total_nuclei of
                Inl e \<Rightarrow> Inl e
              | Inr p \<Rightarrow>
                  Inr \<lparr>res_total_nuclei = total_nuclei,
                       res_nuclei_within_myotubes = nuclei_within_myotubes s,
                       res_nuclei_outside_myotubes = nuclei_outside_myotubes s,
                       res_percentage_within_myotubes = p,
                       res_nuclei_centroids = nuclei_centroids s,
                       res_nuclei_in_myotube = nuclei_in_myotube s\<rparr>))"

section \<open>Myotube detection: area filter and metrics\<close>

text \<open>
  The part of \<open>detect_myotubes\<close> after \<open>labeled_image = measure.label(closed)\<close>: it
  takes the label image and the cleaned binary image \<open>closed\<close>, whose shape is the
  shape of the loaded image. \<open>filtered_binary\<close> starts as \<open>np.zeros_like(closed)\<close>;
  the loop over the regions keeps those of area at least \<open>min_area\<close> and paints their
  pixels 255. A write \<open>a[y, x] = v\<close> outside the array raises \<open>IndexError\<close>.
\<close>

definition min_area :: nat where
  "min_area = 100"

definition zeros_like :: "nat grid \<Rightarrow> nat grid" where
  "zeros_like g = map (map (\<lambda>_. 0)) g"

definition np_set :: "nat grid \<Rightarrow> nat \<Rightarrow> nat \<Rightarrow> nat \<Rightarrow> error + nat grid" where
  "np_set g y x v =
     (if y < shape0 g \<and> x < shape1 g then Inr (g[y := (g ! y)[x := v]])
      else Inl IndexError)"

record filter_state =
  myotube_count :: nat
  total_myotube_area :: nat
  filtered_binary :: "nat grid"

fun paint_coords :: "(nat \<times> nat) list \<Rightarrow> nat grid \<Rightarrow> error + nat grid" where
  "paint_coords [] g = Inr g"
| "paint_coords (c # cs) g =
     (case np_set g (fst c) (snd c) 255 of
        Inl e \<Rightarrow> Inl e
      | Inr g' \<Rightarrow> paint_coords cs g')"

definition filter_region :: "region \<Rightarrow> filter_state \<Rightarrow> error + filter_state" where
  "filter_region r s =
     (if min_area \<le> area r
      then (case paint_coords (coords r) (filtered_binary s) of
              Inl e \<Rightarrow> Inl e
            | Inr g \<Rightarrow>
                Inr \<lparr>myotube_count = myotube_count s + 1,
                     total_myotube_area = total_myotube_area s + area r,
                     filtered_binary = g\<rparr>)
      else Inr s)"

fun filter_regions :: "region list \<Rightarrow> filter_state \<Rightarrow> error + filter_state" where
  "filter_regions [] s = Inr s"
| "filter_regions (r # rs) s =
     (case filter_region r s of
        Inl e \<Rightarrow> Inl e
      | Inr s' \<Rightarrow> filter_regions rs s')"

definition area_filter :: "nat grid \<Rightarrow> nat grid \<Rightarrow> error + filter_state" where
  "area_filter labeled_image closed_img =
     filter_regions (regionprops labeled_image)
       \<lparr>myotube_count = 0, total_myotube_area = 0, filtered_binary = zeros_like closed_img\<rparr>"



section \<open>Connected-component labelling\<close>

text \<open>
  \<open>skimage.measure.label(image, connectivity)\<close> is library code; what it returns is
  described by a relation. Two pixels are neighbours when they differ by at most one in
  each coordinate and by at most \<open>connectivity\<close> in total (1: four neighbours, 2, the
  default, eight). Two pixels are connected when a chain of neighbours of the same value
  joins them. A label image of an image has the same shape, gives 0 exactly to the
  pixels of value 0, and gives two other pixels the same label exactly when they are
  connected.
\<close>

definition pixel :: "'a grid \<Rightarrow> nat \<times> nat \<Rightarrow> 'a" where
  "pixel g p = g ! fst p ! snd p"

definition in_grid :: "'a grid \<Rightarrow> nat \<times> nat \<Rightarrow> bool" where
  "in_grid g p \<longleftrightarrow> fst p < shape0 g \<and> snd p < shape1 g"

definition dist1 :: "nat \<Rightarrow> nat \<Rightarrow> nat" where
  "dist1 a b = (if a \<le> b then b - a else a - b)"

definition neighbours :: "nat \<Rightarrow> nat \<times> nat \<Rightarrow> nat \<times> nat \<Rightarrow> bool" where
  "neighbours connectivity p q \<longleftrightarrow>
     p \<noteq> q \<and> dist1 (fst p) (fst q) \<le> 1 \<and> dist1 (snd p) (snd q) \<le> 1 \<and>
     dist1 (fst p) (fst q) + dist1 (snd p) (snd q) \<le> connectivity"

definition same_value_step :: "nat \<Rightarrow> nat grid \<Rightarrow> ((nat \<times> nat) \<times> (nat \<times> nat)) set" where
  "same_value_step connectivity img =
     {(p, q). in_grid img p \<and> in_grid img q \<and> neighbours connectivity p q \<and>
              pixel img p = pixel img q}"

definition is_labeling :: "nat \<Rightarrow> nat grid \<Rightarrow> nat grid \<Rightarrow> bool" where
  "is_labeling connectivity img L \<longleftrightarrow>
     is_array L \<and> same_shape L img \<and>
     (\<forall>p. in_grid img p \<longrightarrow> (pixel L p = 0 \<longleftrightarrow> pixel img p = 0)) \<and>
     (\<forall>p q. in_grid img p \<and> in_grid img q \<and> pixel img p \<noteq> 0 \<and> pixel img q \<noteq> 0 \<longrightarrow>
        (pixel L p = pixel L q \<longleftrightarrow> (p, q) \<in> (same_value_step connectivity img)\<^sup>*))"

text \<open>A binary mask holds only the values 0 and 255.\<close>

definition binary_mask :: "nat grid \<Rightarrow> bool" where
  "binary_mask g \<longleftrightarrow> (\<forall>v \<in> set (concat g). v = 0 \<or> v = 255)"

text \<open>The number of pixels that carry label \<open>l\<close>: the area of the region \<open>l\<close>.\<close>

definition component_area :: "nat grid \<Rightarrow> nat \<Rightarrow> nat" where
  "component_area L l = length (label_coords L l)"

text \<open>
  \<open>F\<close> keeps the large components of the label image \<open>L\<close> when it has the shape of
  \<open>C\<close> and is 255 exactly on the pixels whose component has at least \<open>min_area\<close>
  pixels, and 0 elsewhere.
\<close>

definition keeps_large_components :: "nat grid \<Rightarrow> nat grid \<Rightarrow> nat grid \<Rightarrow> bool" where
  "keeps_large_components L C F \<longleftrightarrow>
     is_array F \<and> same_shape F C \<and>
     (\<forall>p. in_grid C p \<longrightarrow>
        pixel F p =
          (if 0 < pixel L p \<and> min_area \<le> component_area L (pixel L p) then 255 else 0))"

section \<open>Specification-side notions\<close>

text \<open>
  The pixels carrying label \<open>l\<close> form the nucleus \<open>l\<close>; \<open>nucleus_centroid\<close> is the
  mean of their coordinates. \<open>truncated_hit\<close> reads the mask at the centroid with both
  coordinates truncated, and is false when that pixel lies outside the mask.
\<close>

definition nucleus_centroid :: "nat grid \<Rightarrow> nat \<Rightarrow> rat \<times> rat" where
  "nucleus_centroid L l = centroid \<lparr>label = l, coords = label_coords L l\<rparr>"

definition truncated_hit :: "nat grid \<Rightarrow> rat \<times> rat \<Rightarrow> bool" where
  "truncated_hit m c =
     (let y = nat \<lfloor>fst c\<rfloor>; x = nat \<lfloor>snd c\<rfloor>
      in y < shape0 m \<and> x < shape1 m \<and> 0 < m ! y ! x)"

text \<open>
  The reading of the specification: the mask at the centroid with both coordinates
  rounded to the nearest integer.
\<close>

definition nearest_hit :: "nat grid \<Rightarrow> rat \<times> rat \<Rightarrow> bool" where
  "nearest_hit m c =
     (let y = round (fst c); x = round (snd c)
      in 0 \<le> y \<and> y < int (shape0 m) \<and> 0 \<le> x \<and> x < int (shape1 m) \<and>
         0 < m ! nat y ! nat x)"

text \<open>
  A label map is dense when it has a largest label \<open>n\<close> (it is not empty) and its
  positive labels are exactly \<open>1, \<dots>, n\<close>, none missing.
\<close>


definition dense_labels :: "nat grid \<Rightarrow> bool" where
  "dense_labels L \<longleftrightarrow>
     (case np_max L of Inl e \<Rightarrow> False | Inr n \<Rightarrow> positive_labels L = [1..<Suc n])"

section \<open>Nuclei detection: the foreground\<close>

text \<open>
  Lines 46 to 58 of \<open>detect_nuclei\<close> are library calls, modelled after their
  documentation.
  \<^item> \<open>cv2.GaussianBlur(blue_channel, (5, 5), 0)\<close> replaces every pixel by a weighted
    average of pixels of the source, with positive weights that sum to one, rounded to
    8 bits: the result has the shape of the source, and every pixel of it lies between
    the least and the greatest pixel of the source.
  \<^item> \<open>cv2.threshold(blurred, 0, 255, cv2.THRESH_BINARY + cv2.THRESH_OTSU)\<close> chooses a
    threshold value by Otsu's method and returns it with the image that is 255 where
    the source is above that value and 0 elsewhere. Which value the method chooses is
    left open: the threshold value is a parameter of \<open>nuclei_foreground\<close>.
  \<^item> \<open>cv2.erode\<close> and \<open>cv2.dilate\<close> with \<open>kernel = np.ones((3, 3))\<close> and one
    iteration take the least and the greatest pixel of the 3 by 3 neighbourhood; beyond
    the border of the image there is no pixel to take.
\<close>

definition is_gaussian_blur :: "nat grid \<Rightarrow> nat grid \<Rightarrow> bool" where
  "is_gaussian_blur src dst \<longleftrightarrow>
     is_array dst \<and> same_shape dst src \<and>
     (\<forall>p. in_grid dst p \<longrightarrow>
        (\<exists>q. in_grid src q \<and> pixel src q \<le> pixel dst p) \<and>
        (\<exists>q. in_grid src q \<and> pixel dst p \<le> pixel src q))"

definition threshold_binary :: "nat grid \<Rightarrow> nat \<Rightarrow> nat \<Rightarrow> nat grid" where
  "threshold_binary src thresh maxval =
     map (map (\<lambda>v. if thresh < v then maxval else 0)) src"

definition window3 :: "nat grid \<Rightarrow> nat \<Rightarrow> nat \<Rightarrow> nat list" where
  "window3 src y x =
     concat (map (\<lambda>y'. map (\<lambda>x'. src ! y' ! x') [x - 1..<min (shape1 src) (x + 2)])
       [y - 1..<min (shape0 src) (y + 2)])"

definition erode :: "nat grid \<Rightarrow> nat grid" where
  "erode src =
     map (\<lambda>y. map (\<lambda>x. fold min (window3 src y x) (src ! y ! x)) [0..<shape1 src])
       [0..<shape0 src]"

definition dilate :: "nat grid \<Rightarrow> nat grid" where
  "dilate src =
     map (\<lambda>y. map (\<lambda>x. fold max (window3 src y x) (src ! y ! x)) [0..<shape1 src])
       [0..<shape0 src]"

text \<open>
  \<open>binary\<close>, \<open>eroded\<close> and \<open>dilated\<close> of lines 49 to 58; \<open>dilated\<close> is the foreground
  that the distance transform, \<open>peak_local_max\<close> and \<open>watershed\<close> are given.
\<close>

definition nuclei_foreground :: "nat grid \<Rightarrow> nat \<Rightarrow> nat grid" where
  "nuclei_foreground blurred threshold_value =
     (let binary = threshold_binary blurred threshold_value 255;
          eroded = erode binary
      in dilate eroded)"

text \<open>An image without foreground: every pixel is 0.\<close>

definition all_zero :: "nat grid \<Rightarrow> bool" where
  "all_zero g \<longleftrightarrow> (\<forall>p. in_grid g p \<longrightarrow> pixel g p = 0)"

section \<open>Nuclei detection: markers and watershed\<close>

text \<open>
  Lines 67 to 83 of \<open>detect_nuclei\<close>. The code of the repository there is the loop that
  writes \<open>True\<close> into \<open>local_max = np.zeros_like(dist_transform, dtype=bool)\<close> at every
  coordinate that \<open>peak_local_max\<close> returned, and \<open>np.max(labels)\<close>. A write outside
  the array raises \<open>IndexError\<close>.
\<close>

definition zeros_like_bool :: "'a grid \<Rightarrow> bool grid" where
  "zeros_like_bool g = map (map (\<lambda>_. False)) g"

definition np_set_true :: "bool grid \<Rightarrow> nat \<Rightarrow> nat \<Rightarrow> error + bool grid" where
  "np_set_true g y x =
     (if y < shape0 g \<and> x < shape1 g then Inr (g[y := (g ! y)[x := True]])
      else Inl IndexError)"

fun mark_peaks :: "(nat \<times> nat) list \<Rightarrow> bool grid \<Rightarrow> error + bool grid" where
  "mark_peaks [] g = Inr g"
| "mark_peaks (c # cs) g =
     (case np_set_true g (fst c) (snd c) of
        Inl e \<Rightarrow> Inl e
      | Inr g' \<Rightarrow> mark_peaks cs g')"

definition local_maxima :: "'a grid \<Rightarrow> (nat \<times> nat) list \<Rightarrow> error + bool grid" where
  "local_maxima dist_transform coordinates =
     mark_peaks coordinates (zeros_like_bool dist_transform)"

text \<open>
  The three library calls around that loop are described by what their documentation
  promises of the result.
  \<^item> \<open>peak_local_max(dist_transform, min_distance=7, labels=dilated)\<close> searches for
    peaks inside the regions of \<open>labels\<close> only, 0 being background: every coordinate it
    returns is a pixel of the image where \<open>dilated\<close> is not 0.
  \<^item> \<open>measure.label(local_max)\<close> on a boolean image labels the connected components
    of the \<open>True\<close> pixels, and numbers them consecutively from 1.
  \<^item> \<open>watershed(-dist_transform, markers, mask=dilated)\<close> returns a label image of the
    shape of \<open>markers\<close> in which every label is 0 or the label of a marker, every marker
    pixel inside the mask keeps its label, and every pixel outside the mask is 0.
\<close>

definition peaks_in_labels :: "nat grid \<Rightarrow> (nat \<times> nat) list \<Rightarrow> bool" where
  "peaks_in_labels labels_img coordinates \<longleftrightarrow>
     (\<forall>c \<in> set coordinates. in_grid labels_img c \<and> pixel labels_img c \<noteq> 0)"

definition bool_image :: "bool grid \<Rightarrow> nat grid" where
  "bool_image g = map (map (\<lambda>b. if b then 1 else 0)) g"

definition is_marker_labeling :: "nat \<Rightarrow> bool grid \<Rightarrow> nat grid \<Rightarrow> bool" where
  "is_marker_labeling connectivity local_max markers \<longleftrightarrow>
     is_labeling connectivity (bool_image local_max) markers \<and> dense_labels markers"

definition is_watershed :: "nat grid \<Rightarrow> nat grid \<Rightarrow> nat grid \<Rightarrow> bool" where
  "is_watershed markers mask_img labels \<longleftrightarrow>
     is_array labels \<and> same_shape labels markers \<and>
     (\<forall>p. in_grid markers p \<longrightarrow>
        (pixel labels p = 0 \<or> pixel labels p \<in> set (positive_labels markers)) \<and>
        (pixel markers p \<noteq> 0 \<and> pixel mask_img p \<noteq> 0 \<longrightarrow> pixel labels p = pixel markers p) \<and>
        (pixel mask_img p = 0 \<longrightarrow> pixel labels p = 0))"

section \<open>Myotube detection: the adaptive threshold\<close>

text \<open>
  Lines 50 to 57 of \<open>detect_myotubes\<close> call \<open>cv2.adaptiveThreshold\<close>, library code,
  modelled after its documentation with exact real numbers.
  \<^item> The threshold of a pixel is a weighted sum of its \<open>blockSize \<times> blockSize\<close>
    neighbourhood minus \<open>C\<close>; pixels beyond the border repeat the border pixel
    (\<open>BORDER_REPLICATE\<close>).
  \<^item> With \<open>ADAPTIVE_THRESH_MEAN_C\<close> every weight is \<open>1 / blockSize\<^sup>2\<close>: the sum is the
    mean of the neighbourhood.
  \<^item> With \<open>ADAPTIVE_THRESH_GAUSSIAN_C\<close> the window is the product of two Gaussian
    kernels \<open>getGaussianKernel(blockSize, sigma)\<close> with the default
    \<open>sigma = 0.3 * ((blockSize - 1) * 0.5 - 1) + 0.8\<close>, whose coefficients are
    \<open>exp (- (i - (ksize - 1) / 2)\<^sup>2 / (2 * sigma\<^sup>2))\<close> scaled to sum 1.
  \<^item> With \<open>THRESH_BINARY\<close> the result is \<open>maxValue\<close> where the pixel is above its
    threshold and 0 elsewhere; \<open>THRESH_BINARY_INV\<close> exchanges the two.
  OpenCV rounds the weighted sum to 8 bits before it compares; this is not modelled.
\<close>

datatype adaptive_method = ADAPTIVE_THRESH_MEAN_C | ADAPTIVE_THRESH_GAUSSIAN_C

datatype threshold_type = THRESH_BINARY | THRESH_BINARY_INV

definition gaussian_sigma :: "nat \<Rightarrow> real" where
  "gaussian_sigma ksize = 3 / 10 * ((real ksize - 1) * (1 / 2) - 1) + 8 / 10"

definition gaussian_bell :: "nat \<Rightarrow> nat \<Rightarrow> real" where
  "gaussian_bell ksize i =
     exp (- ((real i - (real ksize - 1) / 2)\<^sup>2 / (2 * (gaussian_sigma ksize)\<^sup>2)))"

definition getGaussianKernel :: "nat \<Rightarrow> real list" where
  "getGaussianKernel ksize =
     map (\<lambda>i. gaussian_bell ksize i / sum_list (map (gaussian_bell ksize) [0..<ksize]))
       [0..<ksize]"

definition window_kernel :: "adaptive_method \<Rightarrow> nat \<Rightarrow> real list" where
  "window_kernel method blockSize =
     (case method of
        ADAPTIVE_THRESH_MEAN_C \<Rightarrow> replicate blockSize (1 / real blockSize)
      | ADAPTIVE_THRESH_GAUSSIAN_C \<Rightarrow> getGaussianKernel blockSize)"

definition replicated :: "nat grid \<Rightarrow> int \<Rightarrow> int \<Rightarrow> nat" where
  "replicated g y x =
     g ! nat (max 0 (min (int (shape0 g) - 1) y)) ! nat (max 0 (min (int (shape1 g) - 1) x))"

definition window_sum :: "real list \<Rightarrow> nat grid \<Rightarrow> nat \<times> nat \<Rightarrow> real" where
  "window_sum k g p =
     sum_list (map (\<lambda>i. sum_list (map (\<lambda>j.
         k ! i * k ! j *
         real (replicated g (int (fst p) + int i - int (length k div 2))
                            (int (snd p) + int j - int (length k div 2))))
       [0..<length k])) [0..<length k])"

definition local_threshold ::
  "adaptive_method \<Rightarrow> nat \<Rightarrow> real \<Rightarrow> nat grid \<Rightarrow> nat \<times> nat \<Rightarrow> real" where
  "local_threshold method blockSize C src p =
     window_sum (window_kernel method blockSize) src p - C"

definition adaptiveThreshold ::
  "nat grid \<Rightarrow> nat \<Rightarrow> adaptive_method \<Rightarrow> threshold_type \<Rightarrow> nat \<Rightarrow> real \<Rightarrow> nat grid" where
  "adaptiveThreshold src maxValue method thresholdType blockSize C =
     map (\<lambda>y. map (\<lambda>x.
         (let above = (local_threshold method blockSize C src (y, x) < real (src ! y ! x))
          in case thresholdType of
               THRESH_BINARY \<Rightarrow> (if above then maxValue else 0)
             | THRESH_BINARY_INV \<Rightarrow> (if above then 0 else maxValue)))
       [0..<shape1 src]) [0..<shape0 src]"




section \<open>Arrays and region properties: basic facts\<close>


lemma set_indices: "set (indices g) = {(y, x). y < shape0 g \<and> x < shape1 g}"
  by (auto simp: indices_def)

lemma distinct_pairs_concat:
  "distinct ys \<Longrightarrow> distinct xs \<Longrightarrow> distinct (concat (map (\<lambda>y. map (\<lambda>x. (y, x)) xs) ys))"
  by (induction ys) (auto simp: distinct_map inj_on_def)

lemma distinct_indices: "distinct (indices g)"
  unfolding indices_def by (rule distinct_pairs_concat) simp_all

lemma is_array_row: "is_array g \<Longrightarrow> y < shape0 g \<Longrightarrow> length (g ! y) = shape1 g"
  by (simp add: is_array_def shape0_def)

lemma set_concat_grid:
  assumes "is_array g"
  shows "set (concat g) = {g ! y ! x | y x. y < shape0 g \<and> x < shape1 g}"
proof (intro set_eqI iffI)
  fix v assume "v \<in> set (concat g)"
  then obtain r where r: "r \<in> set g" "v \<in> set r" by auto
  then obtain y where y: "y < length g" "r = g ! y" by (auto simp: in_set_conv_nth)
  from r obtain x where x: "x < length r" "v = r ! x" by (auto simp: in_set_conv_nth)
  have "length r = shape1 g" using assms r by (simp add: is_array_def)
  with x y show "v \<in> {g ! y ! x | y x. y < shape0 g \<and> x < shape1 g}"
    by (auto simp: shape0_def)
next
  fix v assume "v \<in> {g ! y ! x | y x. y < shape0 g \<and> x < shape1 g}"
  then obtain y x where yx: "y < shape0 g" "x < shape1 g" "v = g ! y ! x" by auto
  then have "g ! y \<in> set g" by (simp add: shape0_def)
  moreover have "v \<in> set (g ! y)" using yx is_array_row [OF assms yx(1)] by simp
  ultimately show "v \<in> set (concat g)" by auto
qed

lemma set_positive_labels: "set (positive_labels L) = {l \<in> set (concat L). 0 < l}"
  by (auto simp: positive_labels_def np_unique_def)

lemma distinct_positive_labels: "distinct (positive_labels L)"
  by (simp add: positive_labels_def np_unique_def)

lemma sorted_positive_labels: "sorted (positive_labels L)"
  by (simp add: positive_labels_def np_unique_def sorted_wrt_filter)

lemma shape_nucleus_mask:
  "shape0 (nucleus_mask L l) = shape0 L" "shape1 (nucleus_mask L l) = shape1 L"
  by (auto simp: nucleus_mask_def shape0_def shape1_def split: list.splits)

lemma indices_nucleus_mask: "indices (nucleus_mask L l) = indices L"
  by (simp add: indices_def shape_nucleus_mask)

lemma nth_nucleus_mask:
  "is_array L \<Longrightarrow> y < shape0 L \<Longrightarrow> x < shape1 L \<Longrightarrow>
   nucleus_mask L l ! y ! x = (if L ! y ! x = l then 1 else 0)"
  using is_array_row [of L y] by (simp add: nucleus_mask_def shape0_def)

lemma label_coords_nucleus_mask:
  assumes "is_array L"
  shows "label_coords (nucleus_mask L l) 1 = label_coords L l"
  unfolding label_coords_def indices_nucleus_mask
  by (rule filter_cong) (auto simp: set_indices nth_nucleus_mask [OF assms] split: if_splits)

lemma positive_labels_nucleus_mask:
  assumes "l \<in> set (concat L)"
  shows "positive_labels (nucleus_mask L l) = [1]"
proof -
  have "concat (nucleus_mask L l) = map (\<lambda>v. if v = l then 1 else 0) (concat L)"
    by (simp add: nucleus_mask_def map_concat)
  then have "set (positive_labels (nucleus_mask L l)) = {1}"
    using assms by (auto simp: set_positive_labels)
  then have "set (positive_labels (nucleus_mask L l)) = set [1::nat]" by simp
  with sorted_positive_labels distinct_positive_labels show ?thesis
    by (intro sorted_distinct_set_unique) simp_all
qed

lemma regionprops_nucleus_mask:
  assumes "is_array L" "l \<in> set (concat L)"
  shows "regionprops (nucleus_mask L l) = [\<lparr>label = 1, coords = label_coords L l\<rparr>]"
  by (simp only: regionprops_def positive_labels_nucleus_mask [OF assms(2)]
      label_coords_nucleus_mask [OF assms(1)] list.map)

lemma label_coords_nonempty:
  assumes "is_array L" "l \<in> set (concat L)"
  shows "label_coords L l \<noteq> []"
proof -
  from assms(2) have "l \<in> {L ! y ! x | y x. y < shape0 L \<and> x < shape1 L}"
    by (simp only: set_concat_grid [OF assms(1)])
  then obtain y x where "y < shape0 L" "x < shape1 L" "L ! y ! x = l"
    by blast
  then have "(y, x) \<in> set (label_coords L l)"
    by (simp add: label_coords_def set_indices)
  then show ?thesis by auto
qed

lemma centroid_nonneg: "0 \<le> fst (centroid r)" "0 \<le> snd (centroid r)"
  by (simp_all add: centroid_def)

lemma np_index_in_range: "0 \<le> i \<Longrightarrow> i < int n \<Longrightarrow> np_index n i = Inr (nat i)"
  by (simp add: np_index_def)

lemma centroid_in_mask_eq:
  assumes "0 \<le> fst c" "0 \<le> snd c"
  shows "centroid_in_mask m c = Inr (truncated_hit m c)"
proof -
  have y: "py_int (fst c) = \<lfloor>fst c\<rfloor>" "0 \<le> \<lfloor>fst c\<rfloor>"
    using assms(1) by (simp_all add: py_int_def)
  have x: "py_int (snd c) = \<lfloor>snd c\<rfloor>" "0 \<le> \<lfloor>snd c\<rfloor>"
    using assms(2) by (simp_all add: py_int_def)
  show ?thesis
  proof (cases "\<lfloor>fst c\<rfloor> < int (shape0 m) \<and> \<lfloor>snd c\<rfloor> < int (shape1 m)")
    case True
    then have "np_get m \<lfloor>fst c\<rfloor> \<lfloor>snd c\<rfloor> = Inr (m ! nat \<lfloor>fst c\<rfloor> ! nat \<lfloor>snd c\<rfloor>)"
      using y(2) x(2) by (simp add: np_get_def np_index_in_range)
    with True y x show ?thesis
      by (simp add: centroid_in_mask_def truncated_hit_def Let_def nat_less_iff)
  next
    case False
    with y x show ?thesis
      by (auto simp: centroid_in_mask_def truncated_hit_def Let_def nat_less_iff)
  qed
qed

lemma regionprops_nucleus_mask_gen:
  assumes "l \<in> set (concat L)"
  shows "regionprops (nucleus_mask L l) =
         [\<lparr>label = 1, coords = label_coords (nucleus_mask L l) 1\<rparr>]"
  by (simp only: regionprops_def positive_labels_nucleus_mask [OF assms] list.map)

lemma classify_nucleus_result:
  assumes "l \<in> set (concat L)"
  shows "classify_nucleus L m l s =
         (let c = centroid \<lparr>label = 1, coords = label_coords (nucleus_mask L l) 1\<rparr>;
              h = truncated_hit m c
          in Inr \<lparr>nuclei_within_myotubes = nuclei_within_myotubes s + (if h then 1 else 0),
                  nuclei_outside_myotubes = nuclei_outside_myotubes s + (if h then 0 else 1),
                  nuclei_centroids = nuclei_centroids s @ [c],
                  nuclei_in_myotube = nuclei_in_myotube s @ [h]\<rparr>)"
  by (simp add: classify_nucleus_def regionprops_nucleus_mask_gen [OF assms]
      centroid_in_mask_eq [OF centroid_nonneg] Let_def)

lemma classify_all_result:
  assumes "set ls \<subseteq> set (concat L)"
  shows "classify_all L m ls s =
         Inr \<lparr>nuclei_within_myotubes = nuclei_within_myotubes s +
                  length (filter (\<lambda>l. truncated_hit m (centroid \<lparr>label = 1, coords = label_coords (nucleus_mask L l) 1\<rparr>)) ls),
               nuclei_outside_myotubes = nuclei_outside_myotubes s +
                  length (filter (\<lambda>l. \<not> truncated_hit m (centroid \<lparr>label = 1, coords = label_coords (nucleus_mask L l) 1\<rparr>)) ls),
               nuclei_centroids = nuclei_centroids s @
                  map (\<lambda>l. centroid \<lparr>label = 1, coords = label_coords (nucleus_mask L l) 1\<rparr>) ls,
               nuclei_in_myotube = nuclei_in_myotube s @
                  map (\<lambda>l. truncated_hit m (centroid \<lparr>label = 1, coords = label_coords (nucleus_mask L l) 1\<rparr>)) ls\<rparr>"
  using assms
proof (induction ls arbitrary: s)
  case Nil
  then show ?case by simp
next
  case (Cons l ls)
  then have l: "l \<in> set (concat L)" and ls: "set ls \<subseteq> set (concat L)" by auto
  show ?case
    by (simp add: classify_nucleus_result [OF l] Cons.IH [OF ls] Let_def)
qed

lemma percentage_within_eq:
  "percentage_within w t = Inr (if 0 < t then of_nat w / of_nat t * 100 else 0)"
  by (simp add: percentage_within_def py_truediv_def)

lemma positive_labels_subset: "set (positive_labels L) \<subseteq> set (concat L)"
  by (auto simp: set_positive_labels)

lemma length_filter_split: "length (filter P xs) + length (filter (\<lambda>x. \<not> P x) xs) = length xs"
  by (induction xs) auto

lemma analyze_relationship_result:
  "analyze_relationship L m =
     (let ls = positive_labels L;
          C = (\<lambda>l. centroid \<lparr>label = 1, coords = label_coords (nucleus_mask L l) 1\<rparr>);
          H = (\<lambda>l. truncated_hit m (C l));
          w = length (filter H ls);
          out = length (filter (\<lambda>l. \<not> H l) ls)
      in Inr \<lparr>res_total_nuclei = w + out,
              res_nuclei_within_myotubes = w,
              res_nuclei_outside_myotubes = out,
              res_percentage_within_myotubes =
                (if 0 < w + out then of_nat w / of_nat (w + out) * 100 else 0),
              res_nuclei_centroids = map C ls,
              res_nuclei_in_myotube = map H ls\<rparr>)"
  by (simp add: analyze_relationship_def classify_all_result [OF positive_labels_subset]
      percentage_within_eq Let_def)

lemma dense_labels_length:
  "dense_labels L \<Longrightarrow> nuclei_count L = Inr (length (positive_labels L))"
  by (auto simp: dense_labels_def nuclei_count_def split: sum.splits)

section \<open>Claims about the relationship analysis\<close>

text \<open>
  The analysis counts the distinct positive labels; the detector reports the largest
  label. On a dense label map the two agree, on a label map with a gap they differ.
\<close>

lemma counts_of_dense_labels:
  assumes "dense_labels L"
  shows "\<exists>r. analyze_relationship L m = Inr r \<and>
           res_nuclei_within_myotubes r + res_nuclei_outside_myotubes r = res_total_nuclei r \<and>
           nuclei_count L = Inr (res_total_nuclei r) \<and>
           length (res_nuclei_centroids r) = res_total_nuclei r \<and>
           length (res_nuclei_in_myotube r) = res_total_nuclei r"
  using dense_labels_length [OF assms]
  by (simp add: analyze_relationship_result Let_def length_filter_split)

lemma sparse_labels_example:
  "res_total_nuclei (projr (analyze_relationship [[0, 2]] [[255, 255]])) = 1 \<and>
   nuclei_count [[0, 2]] = Inr 2 \<and> \<not> dense_labels [[0, 2]]"
  by code_simp

lemma times_100_le: "(q :: rat) \<le> 1 \<Longrightarrow> q * 100 \<le> 100"
  by simp

text \<open>
  Claim C2. The analysis always returns a result (no division fault); its percentage is
  \<open>within / (within + outside) * 100\<close> when a nucleus was classified, exactly 0 when
  there is none, and lies between 0 and 100.
\<close>

theorem percentage_within_myotubes_guarded:
  "\<exists>r. analyze_relationship L m = Inr r \<and>
     (0 < res_nuclei_within_myotubes r + res_nuclei_outside_myotubes r \<longrightarrow>
        res_percentage_within_myotubes r =
          of_nat (res_nuclei_within_myotubes r) /
          of_nat (res_nuclei_within_myotubes r + res_nuclei_outside_myotubes r) * 100) \<and>
     (res_total_nuclei r = 0 \<longrightarrow> res_percentage_within_myotubes r = 0) \<and>
     0 \<le> res_percentage_within_myotubes r \<and> res_percentage_within_myotubes r \<le> 100"
proof -
  have "of_nat w / of_nat (w + out) * 100 \<le> (100 :: rat)" if "0 < w + out" for w out :: nat
  proof -
    have "(of_nat w :: rat) \<le> of_nat (w + out)"
      by simp
    moreover have "(0 :: rat) < of_nat (w + out)"
      using that by (simp only: of_nat_0_less_iff)
    ultimately have "(of_nat w :: rat) / of_nat (w + out) \<le> 1"
      by (simp only: divide_le_eq_1_pos)
    then show ?thesis by (rule times_100_le)
  qed
  then show ?thesis
    by (simp add: analyze_relationship_result Let_def)
qed

theorem percentage_within_myotubes_guarded_witness:
  "\<exists>r. analyze_relationship [[1, 0], [0, 2]] [[255, 0], [0, 0]] = Inr r \<and>
     0 < res_nuclei_within_myotubes r + res_nuclei_outside_myotubes r \<and>
     res_percentage_within_myotubes r =
       of_nat (res_nuclei_within_myotubes r) /
       of_nat (res_nuclei_within_myotubes r + res_nuclei_outside_myotubes r) * 100 \<and>
     res_percentage_within_myotubes r = 50"
proof -
  have e: "analyze_relationship [[1, 0], [0, 2]] [[255, 0], [0, 0]] =
           Inr \<lparr>res_total_nuclei = 2, res_nuclei_within_myotubes = 1,
                res_nuclei_outside_myotubes = 1, res_percentage_within_myotubes = 50,
                res_nuclei_centroids = [(0, 0), (1, 1)],
                res_nuclei_in_myotube = [True, False]\<rparr>"
    by code_simp
  from percentage_within_myotubes_guarded [of "[[1, 0], [0, 2]]" "[[255, 0], [0, 0]]"]
  obtain r where r: "analyze_relationship [[1, 0], [0, 2]] [[255, 0], [0, 0]] = Inr r"
    and p: "0 < res_nuclei_within_myotubes r + res_nuclei_outside_myotubes r \<longrightarrow>
        res_percentage_within_myotubes r =
          of_nat (res_nuclei_within_myotubes r) /
          of_nat (res_nuclei_within_myotubes r + res_nuclei_outside_myotubes r) * 100"
    by auto
  from r e have v: "res_nuclei_within_myotubes r = 1" "res_nuclei_outside_myotubes r = 1"
    "res_percentage_within_myotubes r = 50"
    by auto
  from v have pos: "0 < res_nuclei_within_myotubes r + res_nuclei_outside_myotubes r"
    by simp
  from p pos r v(3) show ?thesis by blast
qed


lemma centroid_coords_only:
  "centroid \<lparr>label = a, coords = cs\<rparr> = centroid \<lparr>label = b, coords = cs\<rparr>"
  by (simp add: centroid_def area_def)

lemma mask_centroid_eq:
  assumes "is_array L"
  shows "centroid \<lparr>label = 1, coords = label_coords (nucleus_mask L l) 1\<rparr> = nucleus_centroid L l"
  unfolding nucleus_centroid_def label_coords_nucleus_mask [OF assms]
  by (rule centroid_coords_only)

lemmas mask_centroid_eq_Suc = mask_centroid_eq [unfolded One_nat_def]

text \<open>
  Claim C3, as amended. For every labelled nucleus the analysis records the centroid of
  its pixels and classifies it as within a myotube exactly when the mask is foreground
  at the centroid with both coordinates truncated to integers; when that coordinate is
  outside the mask the nucleus is classified as outside, and no error is raised.
\<close>

theorem classification_by_truncated_centroid:
  assumes "is_array L"
  shows "\<exists>r. analyze_relationship L m = Inr r \<and>
           res_nuclei_centroids r = map (nucleus_centroid L) (positive_labels L) \<and>
           res_nuclei_in_myotube r =
             map (\<lambda>l. truncated_hit m (nucleus_centroid L l)) (positive_labels L)"
  by (simp add: analyze_relationship_result Let_def mask_centroid_eq_Suc [OF assms])

lemma sum_list_div_less:
  fixes xs :: "nat list"
  assumes "xs \<noteq> []" "\<forall>x \<in> set xs. x < b"
  shows "sum_list xs div length xs < b"
proof -
  have "sum_list xs \<le> length xs * (b - 1)"
    using assms(2) by (induction xs) auto
  then have "sum_list xs div length xs \<le> (length xs * (b - 1)) div length xs"
    by (rule div_le_mono)
  also have "\<dots> = b - 1" using assms(1) by simp
  also have "\<dots> < b" using assms by (cases xs) auto
  finally show ?thesis .
qed

lemma set_label_coords:
  "set (label_coords L l) = {(y, x). y < shape0 L \<and> x < shape1 L \<and> L ! y ! x = l}"
  by (auto simp: label_coords_def set_indices)

lemma floor_centroid:
  "\<lfloor>fst (centroid r)\<rfloor> = int (sum_list (map fst (coords r)) div area r)"
  "\<lfloor>snd (centroid r)\<rfloor> = int (sum_list (map snd (coords r)) div area r)"
  by (simp_all add: centroid_def floor_divide_of_nat_eq)

lemma truncated_centroid_in_bounds:
  assumes "is_array L" "l \<in> set (concat L)"
  shows "nat \<lfloor>fst (nucleus_centroid L l)\<rfloor> < shape0 L"
    and "nat \<lfloor>snd (nucleus_centroid L l)\<rfloor> < shape1 L"
proof -
  let ?cs = "label_coords L l"
  have ne: "?cs \<noteq> []" by (rule label_coords_nonempty [OF assms])
  then have ne1: "map fst ?cs \<noteq> []" and ne2: "map snd ?cs \<noteq> []" by simp_all
  have b1: "\<forall>y \<in> set (map fst ?cs). y < shape0 L"
    by (auto simp: set_label_coords)
  have b2: "\<forall>x \<in> set (map snd ?cs). x < shape1 L"
    by (auto simp: set_label_coords)
  from sum_list_div_less [OF ne1 b1] show "nat \<lfloor>fst (nucleus_centroid L l)\<rfloor> < shape0 L"
    by (simp add: nucleus_centroid_def floor_centroid area_def)
  from sum_list_div_less [OF ne2 b2] show "nat \<lfloor>snd (nucleus_centroid L l)\<rfloor> < shape1 L"
    by (simp add: nucleus_centroid_def floor_centroid area_def)
qed

text \<open>
  Claim C10. For every nucleus of a label map of shape \<open>H \<times> W\<close> the truncated centroid
  coordinates satisfy \<open>0 \<le> y < H\<close> and \<open>0 \<le> x < W\<close>; with a mask of the same shape
  both comparisons of the bounds test hold, so the branch for a coordinate outside the
  mask is never taken, and the mask read returns a value, not an \<open>IndexError\<close>.
\<close>

theorem truncated_centroid_never_out_of_bounds:
  assumes "is_array L" "l \<in> set (positive_labels L)" "same_shape L m"
  shows "\<exists>r. regionprops (nucleus_mask L l) = [r] \<and>
           (let y = py_int (fst (centroid r)); x = py_int (snd (centroid r))
            in 0 \<le> y \<and> y < int (shape0 L) \<and> 0 \<le> x \<and> x < int (shape1 L) \<and>
               y < int (shape0 m) \<and> x < int (shape1 m) \<and>
               np_get m y x = Inr (m ! nat y ! nat x))"
proof -
  from assms(2) have l: "l \<in> set (concat L)" by (simp add: set_positive_labels)
  let ?r = "\<lparr>label = 1, coords = label_coords L l\<rparr>"
  have r: "regionprops (nucleus_mask L l) = [?r]"
    by (rule regionprops_nucleus_mask [OF assms(1) l])
  have c: "centroid ?r = nucleus_centroid L l"
    unfolding nucleus_centroid_def by (rule centroid_coords_only)
  let ?c = "nucleus_centroid L l"
  have nn: "0 \<le> fst ?c" "0 \<le> snd ?c"
    by (simp_all add: nucleus_centroid_def centroid_nonneg)
  then have y: "py_int (fst ?c) = \<lfloor>fst ?c\<rfloor>" "0 \<le> \<lfloor>fst ?c\<rfloor>"
    and x: "py_int (snd ?c) = \<lfloor>snd ?c\<rfloor>" "0 \<le> \<lfloor>snd ?c\<rfloor>"
    by (simp_all add: py_int_def)
  from truncated_centroid_in_bounds [OF assms(1) l]
  have yb: "\<lfloor>fst ?c\<rfloor> < int (shape0 L)" and xb: "\<lfloor>snd ?c\<rfloor> < int (shape1 L)"
    using y(2) x(2) by linarith+
  from assms(3) have s: "shape0 m = shape0 L" "shape1 m = shape1 L"
    by (simp_all add: same_shape_def)
  have g: "np_get m \<lfloor>fst ?c\<rfloor> \<lfloor>snd ?c\<rfloor> = Inr (m ! nat \<lfloor>fst ?c\<rfloor> ! nat \<lfloor>snd ?c\<rfloor>)"
    using y(2) x(2) yb xb by (simp add: np_get_def np_index_in_range s)
  show ?thesis
    unfolding r using y x yb xb g by (simp add: c [unfolded One_nat_def] s Let_def)
qed


text \<open>
  Claim C3 as stated fails: a nucleus of three pixels with centroid \<open>(1/3, 2/3)\<close> has
  nearest-integer coordinate \<open>(0, 1)\<close>, where the mask (one component of 100 pixels)
  is foreground, but the analysis truncates to \<open>(0, 0)\<close>, which is background, and
  classifies the nucleus as outside.
\<close>

theorem nearest_integer_classification_counterexample:
  "analyze_relationship
     [[1, 1] @ replicate 99 0, [0, 1] @ replicate 99 0]
     [0 # replicate 100 255, replicate 101 0] =
   Inr \<lparr>res_total_nuclei = 1, res_nuclei_within_myotubes = 0,
        res_nuclei_outside_myotubes = 1, res_percentage_within_myotubes = 0,
        res_nuclei_centroids = [(1 / 3, 2 / 3)], res_nuclei_in_myotube = [False]\<rparr> \<and>
   nucleus_centroid [[1, 1] @ replicate 99 0, [0, 1] @ replicate 99 0] 1 = (1 / 3, 2 / 3) \<and>
   nearest_hit [0 # replicate 100 255, replicate 101 0] (1 / 3, 2 / 3)"
  by code_simp

theorem classification_by_truncated_centroid_witness:
  "is_array [[1, 1, 0], [0, 1, 0 :: nat]] \<and>
   (\<exists>r. analyze_relationship [[1, 1, 0], [0, 1, 0]] [[0, 255, 255], [0, 0, 0]] = Inr r \<and>
      res_nuclei_centroids r = [(1 / 3, 2 / 3)] \<and>
      res_nuclei_in_myotube r = [False])"
proof -
  have a: "is_array [[1, 1, 0], [0, 1, 0 :: nat]]"
    by (simp add: is_array_def shape1_def)
  have p: "positive_labels [[1, 1, 0], [0, 1, 0]] = [1]"
    by code_simp
  have c: "nucleus_centroid [[1, 1, 0], [0, 1, 0]] 1 = (1 / 3, 2 / 3)"
    by code_simp
  have h: "truncated_hit [[0, 255, 255], [0, 0, 0]] (1 / 3, 2 / 3) = False"
    by code_simp
  from classification_by_truncated_centroid [OF a, of "[[0, 255, 255], [0, 0, 0]]"] a
  show ?thesis
    by (simp only: p c h list.map)
qed

theorem truncated_centroid_never_out_of_bounds_witness:
  "is_array [[1, 1, 0], [0, 1, 0 :: nat]] \<and>
   1 \<in> set (positive_labels [[1, 1, 0], [0, 1, 0]]) \<and>
   same_shape [[1, 1, 0], [0, 1, 0 :: nat]] [[0, 255, 255], [0, 0, 0 :: nat]] \<and>
   (\<exists>r. regionprops (nucleus_mask [[1, 1, 0], [0, 1, 0]] 1) = [r] \<and>
      (let y = py_int (fst (centroid r)); x = py_int (snd (centroid r))
       in 0 \<le> y \<and> y < int (shape0 [[1, 1, 0], [0, 1, 0 :: nat]]) \<and>
          0 \<le> x \<and> x < int (shape1 [[1, 1, 0], [0, 1, 0 :: nat]]) \<and>
          y < int (shape0 [[0, 255, 255], [0, 0, 0 :: nat]]) \<and>
          x < int (shape1 [[0, 255, 255], [0, 0, 0 :: nat]]) \<and>
          np_get [[0, 255, 255], [0, 0, 0 :: nat]] y x =
            Inr ([[0, 255, 255], [0, 0, 0]] ! nat y ! nat x)))"
proof -
  have a: "is_array [[1, 1, 0], [0, 1, 0 :: nat]]"
    by (simp add: is_array_def shape1_def)
  have p: "1 \<in> set (positive_labels [[1, 1, 0], [0, 1, 0]])"
    by code_simp
  have s: "same_shape [[1, 1, 0], [0, 1, 0 :: nat]] [[0, 255, 255], [0, 0, 0 :: nat]]"
    by (simp add: same_shape_def shape0_def shape1_def)
  from truncated_centroid_never_out_of_bounds [OF a p s] a p s
  show ?thesis
    by (intro conjI)
qed

section \<open>The area filter\<close>


lemma shape_zeros_like: "shape0 (zeros_like g) = shape0 g" "shape1 (zeros_like g) = shape1 g"
  by (auto simp: zeros_like_def shape0_def shape1_def split: list.splits)

lemma is_array_zeros_like: "is_array g \<Longrightarrow> is_array (zeros_like g)"
  unfolding is_array_def shape_zeros_like by (auto simp: zeros_like_def)

lemma pixel_zeros_like:
  assumes "is_array g" "in_grid g p"
  shows "pixel (zeros_like g) p = 0"
  using assms is_array_row [of g "fst p"]
  by (simp add: pixel_def zeros_like_def in_grid_def shape0_def)

lemma shape_row_update:
  "shape0 (g[y := (g ! y)[x := v]]) = shape0 g" "shape1 (g[y := (g ! y)[x := v]]) = shape1 g"
proof -
  show "shape0 (g[y := (g ! y)[x := v]]) = shape0 g" by (simp add: shape0_def)
  show "shape1 (g[y := (g ! y)[x := v]]) = shape1 g"
    by (cases g; cases y) (simp_all add: shape1_def)
qed

lemma is_array_row_update:
  assumes "is_array g"
  shows "is_array (g[y := (g ! y)[x := v]])"
proof -
  have "length r = shape1 g" if "r \<in> set (g[y := (g ! y)[x := v]])" for r
  proof -
    from that have "r \<in> insert ((g ! y)[x := v]) (set g)"
      using set_update_subset_insert by fastforce
    then show ?thesis
    proof
      assume r: "r = (g ! y)[x := v]"
      show ?thesis
      proof (cases "y < length g")
        case True
        then show ?thesis using assms r by (simp add: is_array_def)
      next
        case False
        with that have "r \<in> set g" by (simp add: list_update_beyond not_less)
        then show ?thesis using assms by (simp add: is_array_def)
      qed
    next
      assume "r \<in> set g"
      then show ?thesis using assms by (simp add: is_array_def)
    qed
  qed
  then show ?thesis by (simp add: is_array_def shape_row_update)
qed

lemma pixel_row_update:
  assumes "is_array g" "in_grid g (y, x)" "in_grid g p"
  shows "pixel (g[y := (g ! y)[x := v]]) p = (if p = (y, x) then v else pixel g p)"
proof -
  obtain y' x' where p: "p = (y', x')" by (cases p)
  from assms have b: "y < length g" "y' < length g" "x < shape1 g" "x' < shape1 g"
    by (simp_all add: in_grid_def shape0_def p)
  have len: "length (g ! y) = shape1 g"
    using is_array_row [OF assms(1)] b(1) by (simp add: shape0_def)
  show ?thesis
    using b len by (auto simp: pixel_def p nth_list_update)
qed

lemma in_grid_shape_cong:
  "shape0 g' = shape0 g \<Longrightarrow> shape1 g' = shape1 g \<Longrightarrow> in_grid g' p = in_grid g p"
  by (simp add: in_grid_def)

lemma paint_coords_result:
  assumes "is_array g" "\<forall>c \<in> set cs. in_grid g c"
  shows "\<exists>g'. paint_coords cs g = Inr g' \<and> is_array g' \<and>
           shape0 g' = shape0 g \<and> shape1 g' = shape1 g \<and>
           (\<forall>p. in_grid g p \<longrightarrow> pixel g' p = (if p \<in> set cs then 255 else pixel g p))"
  using assms
proof (induction cs arbitrary: g)
  case Nil
  then show ?case by simp
next
  case (Cons c cs)
  obtain y x where c: "c = (y, x)" by (cases c)
  let ?g1 = "g[y := (g ! y)[x := 255]]"
  from Cons.prems have cin: "in_grid g (y, x)" by (simp add: c)
  then have set1: "np_set g y x 255 = Inr ?g1"
    by (simp add: np_set_def in_grid_def)
  have arr1: "is_array ?g1" by (rule is_array_row_update [OF Cons.prems(1)])
  have sh1: "shape0 ?g1 = shape0 g" "shape1 ?g1 = shape1 g" by (rule shape_row_update)+
  have in1: "\<forall>c \<in> set cs. in_grid ?g1 c"
    using Cons.prems(2) by (simp add: in_grid_shape_cong [OF sh1])
  from Cons.IH [OF arr1 in1] obtain g' where g':
    "paint_coords cs ?g1 = Inr g'" "is_array g'"
    "shape0 g' = shape0 ?g1" "shape1 g' = shape1 ?g1"
    "\<forall>p. in_grid ?g1 p \<longrightarrow> pixel g' p = (if p \<in> set cs then 255 else pixel ?g1 p)"
    by blast
  have px: "pixel g' p = (if p \<in> set (c # cs) then 255 else pixel g p)" if "in_grid g p" for p
  proof -
    from that have "in_grid ?g1 p" by (simp add: in_grid_shape_cong [OF sh1])
    with g'(5) have "pixel g' p = (if p \<in> set cs then 255 else pixel ?g1 p)" by blast
    also have "pixel ?g1 p = (if p = (y, x) then 255 else pixel g p)"
      by (rule pixel_row_update [OF Cons.prems(1) cin that])
    finally show ?thesis by (auto simp: c)
  qed
  show ?case
    using g'(1,2,3,4) px by (simp add: c set1 sh1)
qed

lemma filter_regions_result:
  assumes "is_array (filtered_binary s)"
    and "\<forall>r \<in> set rs. \<forall>c \<in> set (coords r). in_grid (filtered_binary s) c"
  shows "\<exists>s'. filter_regions rs s = Inr s' \<and> is_array (filtered_binary s') \<and>
           shape0 (filtered_binary s') = shape0 (filtered_binary s) \<and>
           shape1 (filtered_binary s') = shape1 (filtered_binary s) \<and>
           myotube_count s' =
             myotube_count s + length (filter (\<lambda>r. min_area \<le> area r) rs) \<and>
           total_myotube_area s' =
             total_myotube_area s + sum_list (map area (filter (\<lambda>r. min_area \<le> area r) rs)) \<and>
           (\<forall>p. in_grid (filtered_binary s) p \<longrightarrow>
              pixel (filtered_binary s') p =
                (if \<exists>r \<in> set rs. min_area \<le> area r \<and> p \<in> set (coords r) then 255
                 else pixel (filtered_binary s) p))"
  using assms
proof (induction rs arbitrary: s)
  case Nil
  then show ?case by simp
next
  case (Cons r rs)
  show ?case
  proof (cases "min_area \<le> area r")
    case False
    then have step: "filter_region r s = Inr s" by (simp add: filter_region_def)
    from Cons.prems have
      "\<forall>r \<in> set rs. \<forall>c \<in> set (coords r). in_grid (filtered_binary s) c" by simp
    from Cons.IH [OF Cons.prems(1) this] False step show ?thesis by auto
  next
    case True
    from Cons.prems(2) have cin: "\<forall>c \<in> set (coords r). in_grid (filtered_binary s) c"
      by simp
    from paint_coords_result [OF Cons.prems(1) cin] obtain g where g:
      "paint_coords (coords r) (filtered_binary s) = Inr g" "is_array g"
      "shape0 g = shape0 (filtered_binary s)" "shape1 g = shape1 (filtered_binary s)"
      "\<forall>p. in_grid (filtered_binary s) p \<longrightarrow>
         pixel g p = (if p \<in> set (coords r) then 255 else pixel (filtered_binary s) p)"
      by blast
    let ?s1 = "\<lparr>myotube_count = myotube_count s + 1,
               total_myotube_area = total_myotube_area s + area r,
               filtered_binary = g\<rparr>"
    have step: "filter_region r s = Inr ?s1"
      using True g(1) by (simp add: filter_region_def)
    have arr1: "is_array (filtered_binary ?s1)" using g(2) by simp
    have in1: "\<forall>r \<in> set rs. \<forall>c \<in> set (coords r). in_grid (filtered_binary ?s1) c"
      using Cons.prems(2) by (simp add: in_grid_shape_cong [OF g(3,4)])
    note ih = Cons.IH [OF arr1 in1, unfolded filter_state.select_convs]
    from ih obtain s' where s':
      "filter_regions rs ?s1 = Inr s'" "is_array (filtered_binary s')"
      "shape0 (filtered_binary s') = shape0 g" "shape1 (filtered_binary s') = shape1 g"
      "myotube_count s' =
         myotube_count s + 1 + length (filter (\<lambda>r. min_area \<le> area r) rs)"
      "total_myotube_area s' =
         total_myotube_area s + area r + sum_list (map area (filter (\<lambda>r. min_area \<le> area r) rs))"
      "\<forall>p. in_grid g p \<longrightarrow>
         pixel (filtered_binary s') p =
           (if \<exists>r \<in> set rs. min_area \<le> area r \<and> p \<in> set (coords r) then 255
            else pixel g p)"
      by blast
    have px: "pixel (filtered_binary s') p =
                (if \<exists>r' \<in> set (r # rs). min_area \<le> area r' \<and> p \<in> set (coords r') then 255
                 else pixel (filtered_binary s) p)"
      if "in_grid (filtered_binary s) p" for p
    proof -
      from that have "in_grid g p" by (simp add: in_grid_shape_cong [OF g(3,4)])
      with s'(7) have "pixel (filtered_binary s') p =
           (if \<exists>r \<in> set rs. min_area \<le> area r \<and> p \<in> set (coords r) then 255
            else pixel g p)" by blast
      moreover from g(5) that have
        "pixel g p = (if p \<in> set (coords r) then 255 else pixel (filtered_binary s) p)"
        by blast
      ultimately show ?thesis using True by auto
    qed
    show ?thesis
      using s'(1-6) g(3,4) px True by (simp add: step)
  qed
qed

lemma in_grid_indices: "in_grid g p \<longleftrightarrow> p \<in> set (indices g)"
  by (cases p) (simp add: in_grid_def set_indices)

lemma label_coords_in_grid: "c \<in> set (label_coords L l) \<Longrightarrow> in_grid L c"
  by (simp add: label_coords_def in_grid_indices)

lemma in_label_coords: "p \<in> set (label_coords L l) \<longleftrightarrow> in_grid L p \<and> pixel L p = l"
  by (cases p) (auto simp: label_coords_def in_grid_indices pixel_def)

lemma pixel_in_concat:
  assumes "is_array L" "in_grid L p"
  shows "pixel L p \<in> set (concat L)"
  using assms(2) unfolding set_concat_grid [OF assms(1)] pixel_def in_grid_def by blast

lemma area_regionprops:
  "map area (filter (\<lambda>r. min_area \<le> area r) (regionprops L)) =
   map (component_area L) (filter (\<lambda>l. min_area \<le> component_area L l) (positive_labels L))"
  by (simp add: regionprops_def filter_map comp_def area_def component_area_def)

lemma area_filter_result:
  assumes "is_array L" "is_array C" "same_shape L C"
  shows "\<exists>s. area_filter L C = Inr s \<and> is_array (filtered_binary s) \<and>
           same_shape (filtered_binary s) C \<and>
           myotube_count s =
             length (filter (\<lambda>l. min_area \<le> component_area L l) (positive_labels L)) \<and>
           total_myotube_area s =
             sum_list (map (component_area L)
               (filter (\<lambda>l. min_area \<le> component_area L l) (positive_labels L))) \<and>
           (\<forall>p. in_grid C p \<longrightarrow>
              pixel (filtered_binary s) p =
                (if 0 < pixel L p \<and> min_area \<le> component_area L (pixel L p) then 255 else 0))"
proof -
  let ?s0 = "\<lparr>myotube_count = 0, total_myotube_area = 0, filtered_binary = zeros_like C\<rparr>"
  from assms(3) have sh: "shape0 L = shape0 C" "shape1 L = shape1 C"
    by (simp_all add: same_shape_def)
  have gL: "in_grid (zeros_like C) p = in_grid L p" for p
    by (simp add: in_grid_def shape_zeros_like sh)
  have gC: "in_grid C p = in_grid L p" for p
    by (simp add: in_grid_def sh)
  have arr0: "is_array (filtered_binary ?s0)"
    using is_array_zeros_like [OF assms(2)] by simp
  have in0: "\<forall>r \<in> set (regionprops L). \<forall>c \<in> set (coords r). in_grid (filtered_binary ?s0) c"
    by (auto simp: regionprops_def gL label_coords_in_grid)
  note fr = filter_regions_result [OF arr0 in0, unfolded filter_state.select_convs add_0]
  from fr obtain s where s:
    "filter_regions (regionprops L) ?s0 = Inr s" "is_array (filtered_binary s)"
    "shape0 (filtered_binary s) = shape0 (zeros_like C)"
    "shape1 (filtered_binary s) = shape1 (zeros_like C)"
    "myotube_count s = length (filter (\<lambda>r. min_area \<le> area r) (regionprops L))"
    "total_myotube_area s = sum_list (map area (filter (\<lambda>r. min_area \<le> area r) (regionprops L)))"
    "\<forall>p. in_grid (zeros_like C) p \<longrightarrow>
       pixel (filtered_binary s) p =
         (if \<exists>r \<in> set (regionprops L). min_area \<le> area r \<and> p \<in> set (coords r) then 255
          else pixel (zeros_like C) p)"
    by blast
  have cnt: "myotube_count s =
      length (filter (\<lambda>l. min_area \<le> component_area L l) (positive_labels L))"
    using s(5) arg_cong [OF area_regionprops [of L], of length] by simp
  have tot: "total_myotube_area s =
      sum_list (map (component_area L)
        (filter (\<lambda>l. min_area \<le> component_area L l) (positive_labels L)))"
    using s(6) by (simp only: area_regionprops)
  have px: "pixel (filtered_binary s) p =
      (if 0 < pixel L p \<and> min_area \<le> component_area L (pixel L p) then 255 else 0)"
    if p: "in_grid C p" for p
  proof -
    from p have pL: "in_grid L p" by (simp add: gC)
    have "(\<exists>r \<in> set (regionprops L). min_area \<le> area r \<and> p \<in> set (coords r)) \<longleftrightarrow>
          (0 < pixel L p \<and> min_area \<le> component_area L (pixel L p))"
      using pL pixel_in_concat [OF assms(1) pL]
      by (auto simp: regionprops_def area_def component_area_def in_label_coords
          set_positive_labels)
    moreover have "in_grid (zeros_like C) p" using pL by (simp only: gL)
    with s(7) have "pixel (filtered_binary s) p =
         (if \<exists>r \<in> set (regionprops L). min_area \<le> area r \<and> p \<in> set (coords r) then 255
          else pixel (zeros_like C) p)"
      by blast
    ultimately show ?thesis
      using pixel_zeros_like [OF assms(2) p] by simp
  qed
  show ?thesis
    using s(1,2,3,4) cnt tot px
    by (simp add: area_filter_def same_shape_def shape_zeros_like)
qed


text \<open>
  Claim C6. The area filter returns; in the filtered mask a pixel is 255 exactly when
  it belongs to a component (a positive label of the label image) of at least 100
  pixels, so every pixel of a smaller component is reset to 0; \<open>myotube_count\<close> is the
  number of the components that remain and \<open>total_myotube_area\<close> the sum of their
  areas.
\<close>

theorem area_filter_discards_small_components:
  assumes "is_array L" "is_array C" "same_shape L C"
  shows "\<exists>s. area_filter L C = Inr s \<and> is_array (filtered_binary s) \<and>
           same_shape (filtered_binary s) C \<and>
           (\<forall>p. in_grid C p \<longrightarrow>
              pixel (filtered_binary s) p =
                (if 0 < pixel L p \<and> 100 \<le> component_area L (pixel L p) then 255 else 0)) \<and>
           myotube_count s =
             length (filter (\<lambda>l. 100 \<le> component_area L l) (positive_labels L)) \<and>
           total_myotube_area s =
             sum_list (map (component_area L)
               (filter (\<lambda>l. 100 \<le> component_area L l) (positive_labels L)))"
  using area_filter_result [OF assms] unfolding min_area_def by blast

theorem area_filter_discards_small_components_witness:
  "is_array [replicate 100 1 @ [0, 2 :: nat]] \<and>
   is_array [replicate 100 255 @ [0, 255 :: nat]] \<and>
   same_shape [replicate 100 1 @ [0, 2 :: nat]] [replicate 100 255 @ [0, 255 :: nat]] \<and>
   (\<exists>s. area_filter [replicate 100 1 @ [0, 2]] [replicate 100 255 @ [0, 255]] = Inr s \<and>
      pixel (filtered_binary s) (0, 99) = 255 \<and>
      pixel (filtered_binary s) (0, 101) = 0 \<and>
      myotube_count s = 1 \<and> total_myotube_area s = 100)"
proof -
  let ?L = "[replicate 100 1 @ [0, 2 :: nat]]"
  let ?C = "[replicate 100 255 @ [0, 255 :: nat]]"
  have a: "is_array ?L" "is_array ?C" "same_shape ?L ?C"
    by (simp_all add: is_array_def same_shape_def shape0_def shape1_def)
  have g: "in_grid ?C (0, 99)" "in_grid ?C (0, 101)"
    by (simp_all add: in_grid_def shape0_def shape1_def)
  have e: "(if 0 < pixel ?L (0, 99) \<and> 100 \<le> component_area ?L (pixel ?L (0, 99))
            then 255 else 0) = (255 :: nat)"
    "(if 0 < pixel ?L (0, 101) \<and> 100 \<le> component_area ?L (pixel ?L (0, 101))
            then 255 else 0) = (0 :: nat)"
    "length (filter (\<lambda>l. 100 \<le> component_area ?L l) (positive_labels ?L)) = 1"
    "sum_list (map (component_area ?L)
               (filter (\<lambda>l. 100 \<le> component_area ?L l) (positive_labels ?L))) = 100"
    by code_simp+
  from area_filter_discards_small_components [OF a] obtain s where s:
    "area_filter ?L ?C = Inr s"
    "\<forall>p. in_grid ?C p \<longrightarrow>
       pixel (filtered_binary s) p =
         (if 0 < pixel ?L p \<and> 100 \<le> component_area ?L (pixel ?L p) then 255 else 0)"
    "myotube_count s =
       length (filter (\<lambda>l. 100 \<le> component_area ?L l) (positive_labels ?L))"
    "total_myotube_area s =
       sum_list (map (component_area ?L)
         (filter (\<lambda>l. 100 \<le> component_area ?L l) (positive_labels ?L)))"
    by blast
  from s(2) g have "pixel (filtered_binary s) (0, 99) =
      (if 0 < pixel ?L (0, 99) \<and> 100 \<le> component_area ?L (pixel ?L (0, 99)) then 255 else 0)"
    "pixel (filtered_binary s) (0, 101) =
      (if 0 < pixel ?L (0, 101) \<and> 100 \<le> component_area ?L (pixel ?L (0, 101)) then 255 else 0)"
    by blast+
  with e s(1,3,4) a show ?thesis by (intro conjI exI [of _ s]) simp_all
qed

subsection \<open>The metrics\<close>


lemma empty_grid_iff:
  assumes "is_array g"
  shows "concat g = [] \<longleftrightarrow> shape0 g * shape1 g = 0"
proof -
  have "set (concat g) = {} \<longleftrightarrow> shape0 g * shape1 g = 0"
    unfolding set_concat_grid [OF assms] by auto
  then show ?thesis by simp
qed




section \<open>Relabelling the filtered mask\<close>


lemma grid_eqI:
  assumes "is_array A" "is_array B" "same_shape A B"
    and "\<And>p. in_grid A p \<Longrightarrow> pixel A p = pixel B p"
  shows "A = B"
proof (rule nth_equalityI)
  show len: "length A = length B"
    using assms(3) by (simp add: same_shape_def shape0_def)
  fix y assume y: "y < length A"
  then have yA: "y < shape0 A" and yB: "y < shape0 B"
    using len by (simp_all add: shape0_def)
  have lA: "length (A ! y) = shape1 A" by (rule is_array_row [OF assms(1) yA])
  have lB: "length (B ! y) = shape1 A"
    using is_array_row [OF assms(2) yB] assms(3) by (simp add: same_shape_def)
  show "A ! y = B ! y"
  proof (rule nth_equalityI)
    show "length (A ! y) = length (B ! y)" using lA lB by simp
    fix x assume "x < length (A ! y)"
    then have "in_grid A (y, x)" using yA lA by (simp add: in_grid_def)
    from assms(4) [OF this] show "A ! y ! x = B ! y ! x" by (simp add: pixel_def)
  qed
qed

lemma card_image_same_kernel:
  assumes "finite A" "\<forall>x \<in> A. \<forall>y \<in> A. f x = f y \<longleftrightarrow> g x = g y"
  shows "card (f ` A) = card (g ` A)"
  using assms
proof (induction A rule: finite_induct)
  case empty
  then show ?case by simp
next
  case (insert a A)
  then have ih: "card (f ` A) = card (g ` A)" by blast
  have "f a \<in> f ` A \<longleftrightarrow> g a \<in> g ` A"
  proof
    assume "f a \<in> f ` A"
    then obtain x where "x \<in> A" "f a = f x" by blast
    with insert.prems have "g a = g x" by blast
    with \<open>x \<in> A\<close> show "g a \<in> g ` A" by blast
  next
    assume "g a \<in> g ` A"
    then obtain x where "x \<in> A" "g a = g x" by blast
    with insert.prems have "f a = f x" by blast
    with \<open>x \<in> A\<close> show "f a \<in> f ` A" by blast
  qed
  with ih insert.hyps show ?case by (simp add: card_insert_if)
qed

lemma finite_in_grid: "finite {p. in_grid M p \<and> P p}"
proof -
  have "{p. in_grid M p \<and> P p} \<subseteq> set (indices M)"
    by (auto simp: in_grid_indices)
  then show ?thesis by (rule finite_subset) simp
qed

lemma component_area_card:
  "component_area M l = card {p. in_grid M p \<and> pixel M p = l}"
proof -
  have "distinct (label_coords M l)"
    by (simp add: label_coords_def distinct_indices)
  then have "length (label_coords M l) = card (set (label_coords M l))"
    by (simp add: distinct_card)
  also have "set (label_coords M l) = {p. in_grid M p \<and> pixel M p = l}"
    by (auto simp: in_label_coords)
  finally show ?thesis by (simp add: component_area_def)
qed

lemma sum_component_areas:
  assumes "distinct ls"
  shows "sum_list (map (component_area M) ls) = card {p. in_grid M p \<and> pixel M p \<in> set ls}"
  using assms
proof (induction ls)
  case Nil
  then show ?case by simp
next
  case (Cons l ls)
  have "{p. in_grid M p \<and> pixel M p \<in> set (l # ls)} =
        {p. in_grid M p \<and> pixel M p = l} \<union> {p. in_grid M p \<and> pixel M p \<in> set ls}"
    by auto
  moreover have "{p. in_grid M p \<and> pixel M p = l} \<inter> {p. in_grid M p \<and> pixel M p \<in> set ls} = {}"
    using Cons.prems by auto
  ultimately have "card {p. in_grid M p \<and> pixel M p \<in> set (l # ls)} =
        card {p. in_grid M p \<and> pixel M p = l} + card {p. in_grid M p \<and> pixel M p \<in> set ls}"
    by (simp add: card_Un_disjoint finite_in_grid)
  with Cons show ?case by (simp add: component_area_card)
qed

lemma steps_preserve:
  assumes "(p, q) \<in> (same_value_step c img)\<^sup>*" "in_grid img p"
  shows "in_grid img q \<and> pixel img q = pixel img p"
  using assms by (induction rule: rtrancl_induct) (auto simp: same_value_step_def)

lemma labeling_same:
  assumes "is_labeling c img M" "in_grid img p" "in_grid img q"
    "pixel img p \<noteq> 0" "pixel img q \<noteq> 0"
  shows "pixel M p = pixel M q \<longleftrightarrow> (p, q) \<in> (same_value_step c img)\<^sup>*"
  using assms unfolding is_labeling_def by blast

lemma labeling_pos:
  assumes "is_labeling c img M" "in_grid img p"
  shows "0 < pixel M p \<longleftrightarrow> pixel img p \<noteq> 0"
proof -
  from assms have "pixel M p = 0 \<longleftrightarrow> pixel img p = 0"
    unfolding is_labeling_def by blast
  then show ?thesis by (cases "pixel M p"; cases "pixel img p") simp_all
qed

lemma labeling_shape:
  assumes "is_labeling c img M"
  shows "is_array M" "same_shape M img" "in_grid M p = in_grid img p"
  using assms unfolding is_labeling_def same_shape_def in_grid_def by auto

lemma labeling_reach:
  assumes "is_labeling c img M" "in_grid img p" "pixel img p \<noteq> 0"
    "(p, q) \<in> (same_value_step c img)\<^sup>*"
  shows "pixel M q = pixel M p"
proof -
  from steps_preserve [OF assms(4,2)] have "in_grid img q" "pixel img q \<noteq> 0"
    using assms(3) by simp_all
  with labeling_same [OF assms(1,2) this(1) assms(3) this(2)] assms(4)
  show ?thesis by simp
qed

lemma area_filter_keeps:
  assumes "is_array L" "is_array C" "same_shape L C"
  shows "\<exists>s. area_filter L C = Inr s \<and> keeps_large_components L C (filtered_binary s) \<and>
           myotube_count s =
             length (filter (\<lambda>l. min_area \<le> component_area L l) (positive_labels L)) \<and>
           total_myotube_area s =
             sum_list (map (component_area L)
               (filter (\<lambda>l. min_area \<le> component_area L l) (positive_labels L)))"
  using area_filter_result [OF assms] unfolding keeps_large_components_def by blast

lemma keeps_pixel_eq:
  assumes "keeps_large_components L C F" "in_grid C p"
  shows "pixel F p =
    (if 0 < pixel L p \<and> min_area \<le> component_area L (pixel L p) then 255 else 0)"
proof -
  from assms(1) have "\<forall>p. in_grid C p \<longrightarrow> pixel F p =
    (if 0 < pixel L p \<and> min_area \<le> component_area L (pixel L p) then 255 else 0)"
    unfolding keeps_large_components_def by (elim conjE)
  then show ?thesis using assms(2) by (elim allE [of _ p] impE)
qed

lemma keeps_pixel:
  assumes "keeps_large_components L C F" "in_grid C p"
  shows "pixel F p \<noteq> 0 \<longleftrightarrow> 0 < pixel L p \<and> min_area \<le> component_area L (pixel L p)"
    and "pixel F p = 0 \<or> pixel F p = 255"
  unfolding keeps_pixel_eq [OF assms] by simp_all

lemma keeps_in_grid:
  assumes "keeps_large_components L C F"
  shows "in_grid F p = in_grid C p"
  using assms unfolding keeps_large_components_def same_shape_def in_grid_def by simp

lemma reach_closed_to_filtered:
  assumes lab: "is_labeling c C L" and keep: "keeps_large_components L C F"
    and p: "in_grid C p" "pixel F p \<noteq> 0"
    and reach: "(p, q) \<in> (same_value_step c C)\<^sup>*"
  shows "(p, q) \<in> (same_value_step c F)\<^sup>*"
proof -
  from keeps_pixel(1) [OF keep p(1)] p(2)
  have big: "0 < pixel L p" "min_area \<le> component_area L (pixel L p)" by simp_all
  then have cp: "pixel C p \<noteq> 0" using labeling_pos [OF lab p(1)] by simp
  have full: "pixel F r = 255" if "(p, r) \<in> (same_value_step c C)\<^sup>*" for r
  proof -
    have r: "in_grid C r" using steps_preserve [OF that p(1)] by simp
    have "pixel L r = pixel L p" by (rule labeling_reach [OF lab p(1) cp that])
    then show ?thesis
      unfolding keeps_pixel_eq [OF keep r] using big by simp
  qed
  from reach show ?thesis
  proof (induction rule: rtrancl_induct)
    case base
    show ?case by simp
  next
    case (step r r')
    from step.hyps(1,2) have r': "(p, r') \<in> (same_value_step c C)\<^sup>*" by simp
    from step.hyps(2) have "in_grid C r" "in_grid C r'" "neighbours c r r'"
      by (simp_all add: same_value_step_def)
    moreover have "pixel F r = pixel F r'"
      using full [OF step.hyps(1)] full [OF r'] by simp
    ultimately have "(r, r') \<in> same_value_step c F"
      by (simp add: same_value_step_def keeps_in_grid [OF keep])
    with step.IH show ?case by simp
  qed
qed

lemma reach_filtered_to_closed:
  assumes arr: "is_array C" and bin: "binary_mask C"
    and lab: "is_labeling c C L" and keep: "keeps_large_components L C F"
    and p: "in_grid C p" "pixel F p \<noteq> 0"
    and reach: "(p, q) \<in> (same_value_step c F)\<^sup>*"
  shows "(p, q) \<in> (same_value_step c C)\<^sup>* \<and> in_grid C q \<and> pixel F q \<noteq> 0"
  using reach
proof (induction rule: rtrancl_induct)
  case base
  show ?case using p by simp
next
  case (step r r')
  then have r: "in_grid C r" "pixel F r \<noteq> 0" by simp_all
  from step.hyps(2) have s: "in_grid C r'" "neighbours c r r'" "pixel F r = pixel F r'"
    by (simp_all add: same_value_step_def keeps_in_grid [OF keep])
  with r have r': "pixel F r' \<noteq> 0" by simp
  have nz: "pixel C t = 255" if "in_grid C t" "pixel F t \<noteq> 0" for t
  proof -
    from keeps_pixel(1) [OF keep that(1)] that(2) have "0 < pixel L t" by simp
    then have "pixel C t \<noteq> 0" using labeling_pos [OF lab that(1)] by simp
    moreover have "pixel C t \<in> set (concat C)"
      by (rule pixel_in_concat [OF arr that(1)])
    ultimately show ?thesis using bin unfolding binary_mask_def by (metis)
  qed
  have "(r, r') \<in> same_value_step c C"
    using r(1) s(1,2) nz [OF r] nz [OF s(1) r'] by (simp add: same_value_step_def)
  moreover from step.IH have "(p, r) \<in> (same_value_step c C)\<^sup>*" by (elim conjE)
  ultimately have "(p, r') \<in> (same_value_step c C)\<^sup>*"
    by (rule rtrancl_into_rtrancl [rotated])
  with s(1) r' show ?case by (intro conjI)
qed

lemma relabel_same_classes:
  assumes arr: "is_array C" and bin: "binary_mask C"
    and lab: "is_labeling c C L" and keep: "keeps_large_components L C F"
    and lab': "is_labeling c F L'"
    and p: "in_grid C p" "pixel F p \<noteq> 0" and q: "in_grid C q" "pixel F q \<noteq> 0"
  shows "pixel L' p = pixel L' q \<longleftrightarrow> pixel L p = pixel L q"
proof -
  have cp: "pixel C p \<noteq> 0"
    using keeps_pixel(1) [OF keep p(1)] p(2) labeling_pos [OF lab p(1)] by simp
  have cq: "pixel C q \<noteq> 0"
    using keeps_pixel(1) [OF keep q(1)] q(2) labeling_pos [OF lab q(1)] by simp
  have pF: "in_grid F p" and qF: "in_grid F q"
    using p(1) q(1) by (simp_all add: keeps_in_grid [OF keep])
  have "pixel L' p = pixel L' q \<longleftrightarrow> (p, q) \<in> (same_value_step c F)\<^sup>*"
    by (rule labeling_same [OF lab' pF qF p(2) q(2)])
  also have "\<dots> \<longleftrightarrow> (p, q) \<in> (same_value_step c C)\<^sup>*"
    using reach_closed_to_filtered [OF lab keep p]
      reach_filtered_to_closed [OF arr bin lab keep p] by blast
  also have "\<dots> \<longleftrightarrow> pixel L p = pixel L q"
    by (rule labeling_same [OF lab p(1) q(1) cp cq, symmetric])
  finally show ?thesis .
qed


lemma positive_labels_pixels:
  assumes "is_array M"
  shows "set (positive_labels M) = pixel M ` {p. in_grid M p \<and> 0 < pixel M p}"
proof -
  have "set (concat M) = pixel M ` {p. in_grid M p}"
    unfolding set_concat_grid [OF assms] by (force simp: pixel_def in_grid_def image_iff)
  then show ?thesis by (auto simp: set_positive_labels)
qed

lemma relabel_facts:
  assumes arr: "is_array C" and bin: "binary_mask C"
    and lab: "is_labeling c C L" and keep: "keeps_large_components L C F"
    and lab': "is_labeling c F L'"
  shows "set (positive_labels L') = pixel L' ` {p. in_grid C p \<and> pixel F p \<noteq> 0}"
    and "{l \<in> set (positive_labels L). min_area \<le> component_area L l} =
         pixel L ` {p. in_grid C p \<and> pixel F p \<noteq> 0}"
    and "\<forall>p. in_grid C p \<and> pixel F p \<noteq> 0 \<longrightarrow>
           component_area L' (pixel L' p) = component_area L (pixel L p)"
    and "\<forall>l \<in> set (positive_labels L'). min_area \<le> component_area L' l"
proof -
  let ?FG = "{p. in_grid C p \<and> pixel F p \<noteq> 0}"
  have gL: "in_grid L p = in_grid C p" for p by (rule labeling_shape(3) [OF lab])
  have gF: "in_grid F p = in_grid C p" for p by (rule keeps_in_grid [OF keep])
  have gL': "in_grid L' p = in_grid C p" for p
    using labeling_shape(3) [OF lab', of p] gF by simp
  have pos': "0 < pixel L' p \<longleftrightarrow> pixel F p \<noteq> 0" if "in_grid C p" for p
    using labeling_pos [OF lab', of p] that gF by simp
  have big: "0 < pixel L p \<and> min_area \<le> component_area L (pixel L p) \<longleftrightarrow> pixel F p \<noteq> 0"
    if "in_grid C p" for p
    using keeps_pixel(1) [OF keep that] by simp
  show s1: "set (positive_labels L') = pixel L' ` ?FG"
    unfolding positive_labels_pixels [OF labeling_shape(1) [OF lab']]
    using pos' by (auto simp: gL')
  show s2: "{l \<in> set (positive_labels L). min_area \<le> component_area L l} = pixel L ` ?FG"
    unfolding positive_labels_pixels [OF labeling_shape(1) [OF lab]]
    using big by (auto simp: gL)
  have cls: "{q. in_grid L' q \<and> pixel L' q = pixel L' p} =
             {q. in_grid L q \<and> pixel L q = pixel L p}"
    if p: "in_grid C p" "pixel F p \<noteq> 0" for p
  proof (intro set_eqI iffI; clarify)
    fix q assume q: "in_grid L' q" "pixel L' q = pixel L' p"
    then have qC: "in_grid C q" by (simp add: gL')
    from q(2) pos' [OF p(1)] p(2) have "0 < pixel L' q" by simp
    then have qF: "pixel F q \<noteq> 0" using pos' [OF qC] by simp
    from relabel_same_classes [OF arr bin lab keep lab' qC qF p] q(2)
    show "in_grid L q \<and> pixel L q = pixel L p" using qC by (simp add: gL)
  next
    fix q assume q: "in_grid L q" "pixel L q = pixel L p"
    then have qC: "in_grid C q" by (simp add: gL)
    from big [OF p(1)] p(2) q(2) have "0 < pixel L q \<and> min_area \<le> component_area L (pixel L q)"
      by simp
    then have qF: "pixel F q \<noteq> 0" using big [OF qC] by simp
    from relabel_same_classes [OF arr bin lab keep lab' qC qF p] q(2)
    show "in_grid L' q \<and> pixel L' q = pixel L' p" using qC by (simp add: gL')
  qed
  have ca: "component_area L' (pixel L' p) = component_area L (pixel L p)"
    if "in_grid C p" "pixel F p \<noteq> 0" for p
    by (simp only: component_area_card cls [OF that])
  then show s3: "\<forall>p. in_grid C p \<and> pixel F p \<noteq> 0 \<longrightarrow>
           component_area L' (pixel L' p) = component_area L (pixel L p)"
    by blast
  show "\<forall>l \<in> set (positive_labels L'). min_area \<le> component_area L' l"
  proof
    fix l assume "l \<in> set (positive_labels L')"
    then obtain p where p: "in_grid C p" "pixel F p \<noteq> 0" "l = pixel L' p"
      unfolding s1 by blast
    from ca [OF p(1,2)] p(3) have "component_area L' l = component_area L (pixel L p)" by simp
    with big [OF p(1)] p(2) show "min_area \<le> component_area L' l" by simp
  qed
qed

lemma relabel_pixel_sets:
  assumes lab: "is_labeling c C L" and keep: "keeps_large_components L C F"
    and lab': "is_labeling c F L'"
  shows "{p. in_grid L' p \<and> pixel L' p \<in> pixel L' ` {p. in_grid C p \<and> pixel F p \<noteq> 0}} =
         {p. in_grid C p \<and> pixel F p \<noteq> 0}"
    and "{p. in_grid L p \<and> pixel L p \<in> pixel L ` {p. in_grid C p \<and> pixel F p \<noteq> 0}} =
         {p. in_grid C p \<and> pixel F p \<noteq> 0}"
proof -
  have gL: "in_grid L p = in_grid C p" for p by (rule labeling_shape(3) [OF lab])
  have gF: "in_grid F p = in_grid C p" for p by (rule keeps_in_grid [OF keep])
  have gL': "in_grid L' p = in_grid C p" for p
    using labeling_shape(3) [OF lab', of p] gF by simp
  have pos': "0 < pixel L' p \<longleftrightarrow> pixel F p \<noteq> 0" if "in_grid C p" for p
    using labeling_pos [OF lab', of p] that gF by simp
  have big: "0 < pixel L p \<and> min_area \<le> component_area L (pixel L p) \<longleftrightarrow> pixel F p \<noteq> 0"
    if "in_grid C p" for p
    using keeps_pixel(1) [OF keep that] by simp
  show "{p. in_grid L' p \<and> pixel L' p \<in> pixel L' ` {p. in_grid C p \<and> pixel F p \<noteq> 0}} =
         {p. in_grid C p \<and> pixel F p \<noteq> 0}"
  proof (intro equalityI subsetI)
    fix p assume "p \<in> {p. in_grid L' p \<and> pixel L' p \<in> pixel L' ` {p. in_grid C p \<and> pixel F p \<noteq> 0}}"
    then obtain q where "in_grid L' p" "pixel L' p = pixel L' q" "in_grid C q" "pixel F q \<noteq> 0"
      by blast
    then have "in_grid C p" "0 < pixel L' p" using pos' [of q] by (simp_all add: gL')
    then show "p \<in> {p. in_grid C p \<and> pixel F p \<noteq> 0}" using pos' [of p] by simp
  next
    fix p assume "p \<in> {p. in_grid C p \<and> pixel F p \<noteq> 0}"
    then show "p \<in> {p. in_grid L' p \<and> pixel L' p \<in> pixel L' ` {p. in_grid C p \<and> pixel F p \<noteq> 0}}"
      by (simp add: gL')
  qed
  show "{p. in_grid L p \<and> pixel L p \<in> pixel L ` {p. in_grid C p \<and> pixel F p \<noteq> 0}} =
         {p. in_grid C p \<and> pixel F p \<noteq> 0}"
  proof (intro equalityI subsetI)
    fix p assume "p \<in> {p. in_grid L p \<and> pixel L p \<in> pixel L ` {p. in_grid C p \<and> pixel F p \<noteq> 0}}"
    then obtain q where a: "in_grid L p" "pixel L p = pixel L q" "in_grid C q" "pixel F q \<noteq> 0"
      by blast
    then have pC: "in_grid C p" by (simp add: gL)
    from big [OF a(3)] a(4) a(2)
    have "0 < pixel L p \<and> min_area \<le> component_area L (pixel L p)" by simp
    then show "p \<in> {p. in_grid C p \<and> pixel F p \<noteq> 0}" using big [OF pC] pC by simp
  next
    fix p assume "p \<in> {p. in_grid C p \<and> pixel F p \<noteq> 0}"
    then show "p \<in> {p. in_grid L p \<and> pixel L p \<in> pixel L ` {p. in_grid C p \<and> pixel F p \<noteq> 0}}"
      by (simp add: gL)
  qed
qed

lemma refilter_unchanged:
  assumes arr: "is_array C" and bin: "binary_mask C"
    and lab: "is_labeling c C L" and keep: "keeps_large_components L C F"
    and lab': "is_labeling c F L'" and keep': "keeps_large_components L' F F'"
  shows "F' = F"
    and "length (filter (\<lambda>l. min_area \<le> component_area L' l) (positive_labels L')) =
         length (filter (\<lambda>l. min_area \<le> component_area L l) (positive_labels L))"
    and "sum_list (map (component_area L')
           (filter (\<lambda>l. min_area \<le> component_area L' l) (positive_labels L'))) =
         sum_list (map (component_area L)
           (filter (\<lambda>l. min_area \<le> component_area L l) (positive_labels L)))"
proof -
  let ?FG = "{p. in_grid C p \<and> pixel F p \<noteq> 0}"
  note facts = relabel_facts [OF arr bin lab keep lab']
  note sets = relabel_pixel_sets [OF lab keep lab']
  have gF: "in_grid F p = in_grid C p" for p by (rule keeps_in_grid [OF keep])
  have gF': "in_grid F' p = in_grid C p" for p
    using keeps_in_grid [OF keep', of p] gF by simp
  have all_big: "filter (\<lambda>l. min_area \<le> component_area L' l) (positive_labels L') =
                 positive_labels L'"
    using facts(4) by (simp add: filter_id_conv)
  have arrF: "is_array F" and arrF': "is_array F'" and shF': "same_shape F' F"
    using keep keep' by (simp_all add: keeps_large_components_def)
  show "F' = F"
  proof (rule grid_eqI [OF arrF' arrF shF'])
    fix p assume "in_grid F' p"
    then have pC: "in_grid C p" and pF: "in_grid F p" by (simp_all add: gF gF')
    have pos': "0 < pixel L' p \<longleftrightarrow> pixel F p \<noteq> 0"
      using labeling_pos [OF lab' pF] .
    have "pixel L' p \<in> set (positive_labels L')" if "pixel F p \<noteq> 0"
      unfolding facts(1) using that pC by blast
    with facts(4) have "min_area \<le> component_area L' (pixel L' p)" if "pixel F p \<noteq> 0"
      using that by blast
    with pos' have "pixel F' p = (if pixel F p \<noteq> 0 then 255 else 0)"
      unfolding keeps_pixel_eq [OF keep' pF] by auto
    with keeps_pixel(2) [OF keep pC] show "pixel F' p = pixel F p" by auto
  qed
  have fin: "finite ?FG" by (rule finite_in_grid)
  have ker: "\<forall>p \<in> ?FG. \<forall>q \<in> ?FG. pixel L' p = pixel L' q \<longleftrightarrow> pixel L p = pixel L q"
    using relabel_same_classes [OF arr bin lab keep lab'] by blast
  have "length (positive_labels L') = card (pixel L' ` ?FG)"
    using distinct_card [OF distinct_positive_labels, of L'] by (simp add: facts(1))
  also have "\<dots> = card (pixel L ` ?FG)"
    by (rule card_image_same_kernel [OF fin ker])
  also have "\<dots> = card (set (filter (\<lambda>l. min_area \<le> component_area L l) (positive_labels L)))"
    using facts(2) by simp
  also have "\<dots> = length (filter (\<lambda>l. min_area \<le> component_area L l) (positive_labels L))"
    by (rule distinct_card) (simp add: distinct_positive_labels)
  finally show "length (filter (\<lambda>l. min_area \<le> component_area L' l) (positive_labels L')) =
         length (filter (\<lambda>l. min_area \<le> component_area L l) (positive_labels L))"
    by (simp only: all_big)
  have "sum_list (map (component_area L') (positive_labels L')) = card ?FG"
    using sum_component_areas [OF distinct_positive_labels, of L' L']
    by (simp only: facts(1) sets(1))
  moreover have "set (filter (\<lambda>l. min_area \<le> component_area L l) (positive_labels L)) =
      pixel L ` ?FG"
    using facts(2) by simp
  then have "sum_list (map (component_area L)
      (filter (\<lambda>l. min_area \<le> component_area L l) (positive_labels L))) = card ?FG"
    using sum_component_areas [of "filter (\<lambda>l. min_area \<le> component_area L l) (positive_labels L)" L]
    by (simp only: sets(2) distinct_filter distinct_positive_labels simp_thms)
  ultimately show "sum_list (map (component_area L')
           (filter (\<lambda>l. min_area \<le> component_area L' l) (positive_labels L'))) =
         sum_list (map (component_area L)
           (filter (\<lambda>l. min_area \<le> component_area L l) (positive_labels L)))"
    by (simp only: all_big)
qed

text \<open>
  Claim C7. For every binary mask and every connected-component labelling of it, the
  area filter returns, and labelling its filtered mask again and filtering again with
  the same minimum area yields the identical mask, the same component count and the same
  total area.
\<close>

theorem area_filter_idempotent:
  assumes "is_array C" "binary_mask C" "is_labeling c C L"
  shows "\<exists>s. area_filter L C = Inr s \<and>
           (\<forall>L'. is_labeling c (filtered_binary s) L' \<longrightarrow>
              (\<exists>s'. area_filter L' (filtered_binary s) = Inr s' \<and>
                 filtered_binary s' = filtered_binary s \<and>
                 myotube_count s' = myotube_count s \<and>
                 total_myotube_area s' = total_myotube_area s))"
proof -
  from area_filter_keeps [OF labeling_shape(1) [OF assms(3)] assms(1) labeling_shape(2) [OF assms(3)]]
  obtain s where s: "area_filter L C = Inr s"
    and keep: "keeps_large_components L C (filtered_binary s)"
    and cnt: "myotube_count s =
      length (filter (\<lambda>l. min_area \<le> component_area L l) (positive_labels L))"
    and tot: "total_myotube_area s =
      sum_list (map (component_area L)
        (filter (\<lambda>l. min_area \<le> component_area L l) (positive_labels L)))"
    by blast
  let ?F = "filtered_binary s"
  have arrF: "is_array ?F" using keep by (simp add: keeps_large_components_def)
  have "\<exists>s'. area_filter L' ?F = Inr s' \<and> filtered_binary s' = ?F \<and>
          myotube_count s' = myotube_count s \<and> total_myotube_area s' = total_myotube_area s"
    if lab': "is_labeling c ?F L'" for L'
  proof -
    from area_filter_keeps [OF labeling_shape(1) [OF lab'] arrF labeling_shape(2) [OF lab']]
    obtain s' where s': "area_filter L' ?F = Inr s'"
      and keep': "keeps_large_components L' ?F (filtered_binary s')"
      and cnt': "myotube_count s' =
        length (filter (\<lambda>l. min_area \<le> component_area L' l) (positive_labels L'))"
      and tot': "total_myotube_area s' =
        sum_list (map (component_area L')
          (filter (\<lambda>l. min_area \<le> component_area L' l) (positive_labels L')))"
      by blast
    note same = refilter_unchanged [OF assms(1,2,3) keep lab' keep']
    show ?thesis
      using s' same(1) by (simp add: cnt cnt' tot tot' same(2,3))
  qed
  with s show ?thesis by blast
qed

subsection \<open>A labelled one-row image\<close>


lemma one_row_grid:
  "in_grid [row] p \<longleftrightarrow> fst p = 0 \<and> snd p < length row"
  "pixel [row] (0, a) = row ! a"
  by (auto simp: in_grid_def shape0_def shape1_def pixel_def)

lemma one_row_step:
  "((0, a), (0, b)) \<in> same_value_step c [row] \<longleftrightarrow>
     a < length row \<and> b < length row \<and> (b = Suc a \<or> a = Suc b) \<and> 1 \<le> c \<and> row ! a = row ! b"
  by (auto simp: same_value_step_def one_row_grid neighbours_def dist1_def)

lemma run_connected:
  assumes "a \<le> b" "b < length row" "1 \<le> c"
    and "\<forall>k. a \<le> k \<and> k \<le> b \<longrightarrow> row ! k = v"
  shows "((0, a), (0, b)) \<in> (same_value_step c [row])\<^sup>*"
    and "((0, b), (0, a)) \<in> (same_value_step c [row])\<^sup>*"
  using assms(1,2,4)
proof (induction b rule: dec_induct)
  case base
  {
    case 1 show ?case by simp
  next
    case 2 show ?case by simp
  }
next
  case (step n)
  {
    case 1
    then have "((0, a), (0, n)) \<in> (same_value_step c [row])\<^sup>*"
      using step.IH(1) by simp
    moreover have "((0, n), (0, Suc n)) \<in> same_value_step c [row]"
      using 1 step.hyps assms(3) by (simp add: one_row_step)
    ultimately show ?case by (rule rtrancl_into_rtrancl)
  next
    case 2
    then have "((0, n), (0, a)) \<in> (same_value_step c [row])\<^sup>*"
      using step.IH(2) by simp
    moreover have "((0, Suc n), (0, n)) \<in> same_value_step c [row]"
      using 2 step.hyps assms(3) by (simp add: one_row_step)
    ultimately show ?case by (rule converse_rtrancl_into_rtrancl [rotated])
  }
qed

lemma one_row_labeling:
  assumes len: "length lrow = length row" and c: "1 \<le> c"
    and zero: "\<forall>a < length row. lrow ! a = 0 \<longleftrightarrow> row ! a = 0"
    and loc: "\<forall>a. Suc a < length row \<and> row ! a \<noteq> 0 \<and> row ! a = row ! Suc a \<longrightarrow>
                lrow ! a = lrow ! Suc a"
    and seg: "\<forall>a b. a < b \<and> b < length row \<and> row ! a \<noteq> 0 \<and> lrow ! a = lrow ! b \<longrightarrow>
                (\<forall>k. a \<le> k \<and> k \<le> b \<longrightarrow> row ! k = row ! a)"
  shows "is_labeling c [row] [lrow]"
proof -
  have arr: "is_array [lrow]" by (simp add: is_array_def shape1_def)
  have sh: "same_shape [lrow] [row]" by (simp add: same_shape_def shape0_def shape1_def len)
  have z: "pixel [lrow] p = 0 \<longleftrightarrow> pixel [row] p = 0" if "in_grid [row] p" for p
  proof -
    from that obtain a where "p = (0, a)" "a < length row"
      by (cases p) (simp add: one_row_grid)
    with zero show ?thesis by (simp add: one_row_grid)
  qed
  have fwd: "pixel [lrow] q = pixel [lrow] p"
    if p: "in_grid [row] p" "pixel [row] p \<noteq> 0"
      and r: "(p, q) \<in> (same_value_step c [row])\<^sup>*" for p q
    using r
  proof (induction rule: rtrancl_induct)
    case base
    show ?case by simp
  next
    case (step r r')
    from steps_preserve [OF step.hyps(1) p(1)] p(2)
    have nz: "pixel [row] r \<noteq> 0" by simp
    from step.hyps(2) have "in_grid [row] r" "in_grid [row] r'"
      by (simp_all add: same_value_step_def)
    then obtain a b where ab: "r = (0, a)" "r' = (0, b)"
      by (cases r; cases r') (simp add: one_row_grid)
    from step.hyps(2) have st: "a < length row" "b < length row" "b = Suc a \<or> a = Suc b"
      "row ! a = row ! b"
      by (simp_all add: ab one_row_step)
    from nz have nza: "row ! a \<noteq> 0" by (simp add: ab one_row_grid)
    have "lrow ! a = lrow ! b"
    proof (cases "b = Suc a")
      case True
      with loc st nza show ?thesis by simp
    next
      case False
      with st(3) have "a = Suc b" by simp
      with loc st nza show ?thesis by simp
    qed
    with step.IH show ?case by (simp add: ab one_row_grid)
  qed
  have bwd: "(p, q) \<in> (same_value_step c [row])\<^sup>*"
    if p: "in_grid [row] p" "pixel [row] p \<noteq> 0"
      and q: "in_grid [row] q" "pixel [row] q \<noteq> 0"
      and e: "pixel [lrow] p = pixel [lrow] q" for p q
  proof -
    from p(1) q(1) obtain a b where ab: "p = (0, a)" "q = (0, b)" "a < length row" "b < length row"
      by (cases p; cases q) (simp add: one_row_grid)
    from p(2) q(2) e have v: "row ! a \<noteq> 0" "row ! b \<noteq> 0" "lrow ! a = lrow ! b"
      by (simp_all add: ab one_row_grid)
    consider "a < b" | "a = b" | "b < a" by linarith
    then show ?thesis
    proof cases
      case 1
      with seg ab v have "\<forall>k. a \<le> k \<and> k \<le> b \<longrightarrow> row ! k = row ! a" by blast
      from run_connected(1) [OF _ ab(4) c this] 1 show ?thesis by (simp add: ab)
    next
      case 2
      then show ?thesis by (simp add: ab)
    next
      case 3
      with seg ab v have "\<forall>k. b \<le> k \<and> k \<le> a \<longrightarrow> row ! k = row ! b" by metis
      from run_connected(2) [OF _ ab(3) c this] 3 show ?thesis by (simp add: ab)
    qed
  qed
  show ?thesis
    unfolding is_labeling_def
  proof (intro conjI allI impI)
    show "is_array [lrow]" by (rule arr)
    show "same_shape [lrow] [row]" by (rule sh)
    show "pixel [lrow] p = 0 \<longleftrightarrow> pixel [row] p = 0" if "in_grid [row] p" for p
      by (rule z [OF that])
    show "pixel [lrow] p = pixel [lrow] q \<longleftrightarrow> (p, q) \<in> (same_value_step c [row])\<^sup>*"
      if "in_grid [row] p \<and> in_grid [row] q \<and> pixel [row] p \<noteq> 0 \<and> pixel [row] q \<noteq> 0" for p q
      using that fwd [of p q] bwd [of p q] by auto
  qed
qed

lemma example_rows:
  "a < 100 \<Longrightarrow> (replicate 100 v @ [x, y]) ! a = v"
  "(replicate 100 v @ [x, y]) ! 100 = x"
  "(replicate 100 v @ [x, y]) ! 101 = y"
  by (simp_all add: nth_append)

lemma example_labeling_closed:
  "is_labeling 2 [replicate 100 255 @ [0, 255]] [replicate 100 1 @ [0, 2]]"
proof (rule one_row_labeling)
  let ?row = "replicate 100 255 @ [0, 255 :: nat]"
  let ?lrow = "replicate 100 1 @ [0, 2 :: nat]"
  have idx: "a < 100 \<or> a = 100 \<or> a = 101" if "a < length ?row" for a
    using that by (simp; linarith)
  show "length ?lrow = length ?row" by simp
  show "(1 :: nat) \<le> 2" by simp
  show "\<forall>a < length ?row. ?lrow ! a = 0 \<longleftrightarrow> ?row ! a = 0"
  proof (intro allI impI)
    fix a assume "a < length ?row"
    from idx [OF this] consider "a < 100" | "a = 100" | "a = 101" by blast
    then show "?lrow ! a = 0 \<longleftrightarrow> ?row ! a = 0"
      by cases (simp_all add: example_rows)
  qed
  show "\<forall>a. Suc a < length ?row \<and> ?row ! a \<noteq> 0 \<and> ?row ! a = ?row ! Suc a \<longrightarrow>
          ?lrow ! a = ?lrow ! Suc a"
  proof (intro allI impI)
    fix a assume h: "Suc a < length ?row \<and> ?row ! a \<noteq> 0 \<and> ?row ! a = ?row ! Suc a"
    then consider "Suc a < 100" | "a = 99" | "a = 100" by (simp; linarith)
    then show "?lrow ! a = ?lrow ! Suc a"
    proof cases
      case 1 then show ?thesis by (simp add: example_rows)
    next
      case 2 with h show ?thesis by (simp add: example_rows)
    next
      case 3 with h show ?thesis by (simp add: example_rows)
    qed
  qed
  show "\<forall>a b. a < b \<and> b < length ?row \<and> ?row ! a \<noteq> 0 \<and> ?lrow ! a = ?lrow ! b \<longrightarrow>
          (\<forall>k. a \<le> k \<and> k \<le> b \<longrightarrow> ?row ! k = ?row ! a)"
  proof (intro allI impI)
    fix a b k
    assume h: "a < b \<and> b < length ?row \<and> ?row ! a \<noteq> 0 \<and> ?lrow ! a = ?lrow ! b"
      and k: "a \<le> k \<and> k \<le> b"
    from h idx [of b] have b: "b < 100 \<or> b = 100 \<or> b = 101" by simp
    have "b < 100"
    proof (rule ccontr)
      assume "\<not> b < 100"
      with b have b': "b = 100 \<or> b = 101" by simp
      from h have "a < 100 \<or> a = 100" using b' by linarith
      with h b' show False by (auto simp: example_rows)
    qed
    with h k show "?row ! k = ?row ! a" by (simp add: example_rows)
  qed
qed

lemma example_labeling_filtered:
  "is_labeling 2 [replicate 100 255 @ [0, 0]] [replicate 100 1 @ [0, 0]]"
proof (rule one_row_labeling)
  let ?row = "replicate 100 255 @ [0, 0 :: nat]"
  let ?lrow = "replicate 100 1 @ [0, 0 :: nat]"
  have idx: "a < 100 \<or> a = 100 \<or> a = 101" if "a < length ?row" for a
    using that by (simp; linarith)
  show "length ?lrow = length ?row" by simp
  show "(1 :: nat) \<le> 2" by simp
  show "\<forall>a < length ?row. ?lrow ! a = 0 \<longleftrightarrow> ?row ! a = 0"
  proof (intro allI impI)
    fix a assume "a < length ?row"
    from idx [OF this] consider "a < 100" | "a = 100" | "a = 101" by blast
    then show "?lrow ! a = 0 \<longleftrightarrow> ?row ! a = 0"
      by cases (simp_all add: example_rows)
  qed
  show "\<forall>a. Suc a < length ?row \<and> ?row ! a \<noteq> 0 \<and> ?row ! a = ?row ! Suc a \<longrightarrow>
          ?lrow ! a = ?lrow ! Suc a"
  proof (intro allI impI)
    fix a assume h: "Suc a < length ?row \<and> ?row ! a \<noteq> 0 \<and> ?row ! a = ?row ! Suc a"
    then consider "Suc a < 100" | "a = 99" | "a = 100" by (simp; linarith)
    then show "?lrow ! a = ?lrow ! Suc a"
    proof cases
      case 1 then show ?thesis by (simp add: example_rows)
    next
      case 2 with h show ?thesis by (simp add: example_rows)
    next
      case 3 with h show ?thesis by (simp add: example_rows)
    qed
  qed
  show "\<forall>a b. a < b \<and> b < length ?row \<and> ?row ! a \<noteq> 0 \<and> ?lrow ! a = ?lrow ! b \<longrightarrow>
          (\<forall>k. a \<le> k \<and> k \<le> b \<longrightarrow> ?row ! k = ?row ! a)"
  proof (intro allI impI)
    fix a b k
    assume h: "a < b \<and> b < length ?row \<and> ?row ! a \<noteq> 0 \<and> ?lrow ! a = ?lrow ! b"
      and k: "a \<le> k \<and> k \<le> b"
    from h idx [of b] have b: "b < 100 \<or> b = 100 \<or> b = 101" by simp
    have "b < 100"
    proof (rule ccontr)
      assume "\<not> b < 100"
      with b have b': "b = 100 \<or> b = 101" by simp
      from h have "a < 100 \<or> a = 100" using b' by linarith
      with h b' show False by (auto simp: example_rows)
    qed
    with h k show "?row ! k = ?row ! a" by (simp add: example_rows)
  qed
qed

theorem area_filter_idempotent_witness:
  "is_array [replicate 100 255 @ [0, 255 :: nat]] \<and>
   binary_mask [replicate 100 255 @ [0, 255]] \<and>
   is_labeling 2 [replicate 100 255 @ [0, 255]] [replicate 100 1 @ [0, 2]] \<and>
   (\<exists>s. area_filter [replicate 100 1 @ [0, 2]] [replicate 100 255 @ [0, 255]] = Inr s \<and>
      filtered_binary s = [replicate 100 255 @ [0, 0]] \<and>
      myotube_count s = 1 \<and> total_myotube_area s = 100 \<and>
      is_labeling 2 (filtered_binary s) [replicate 100 1 @ [0, 0]] \<and>
      (\<exists>s'. area_filter [replicate 100 1 @ [0, 0]] (filtered_binary s) = Inr s' \<and>
         filtered_binary s' = filtered_binary s \<and>
         myotube_count s' = myotube_count s \<and>
         total_myotube_area s' = total_myotube_area s))"
proof -
  let ?C = "[replicate 100 255 @ [0, 255 :: nat]]"
  let ?L = "[replicate 100 1 @ [0, 2 :: nat]]"
  let ?F = "[replicate 100 255 @ [0, 0 :: nat]]"
  let ?L' = "[replicate 100 1 @ [0, 0 :: nat]]"
  have a: "is_array ?C" by (simp add: is_array_def shape1_def)
  have b: "binary_mask ?C" by (auto simp: binary_mask_def)
  have e: "area_filter ?L ?C =
           Inr \<lparr>myotube_count = 1, total_myotube_area = 100, filtered_binary = ?F\<rparr>"
    by code_simp
  from area_filter_idempotent [OF a b example_labeling_closed] obtain s where
    s: "area_filter ?L ?C = Inr s" and
    again: "\<forall>L'. is_labeling 2 (filtered_binary s) L' \<longrightarrow>
              (\<exists>s'. area_filter L' (filtered_binary s) = Inr s' \<and>
                 filtered_binary s' = filtered_binary s \<and>
                 myotube_count s' = myotube_count s \<and>
                 total_myotube_area s' = total_myotube_area s)"
    by blast
  from s e have v: "filtered_binary s = ?F" "myotube_count s = 1" "total_myotube_area s = 100"
    by auto
  have l': "is_labeling 2 (filtered_binary s) ?L'"
    unfolding v(1) by (rule example_labeling_filtered)
  from again l' have "\<exists>s'. area_filter ?L' (filtered_binary s) = Inr s' \<and>
                 filtered_binary s' = filtered_binary s \<and>
                 myotube_count s' = myotube_count s \<and>
                 total_myotube_area s' = total_myotube_area s"
    by blast
  with a b example_labeling_closed s v l' show ?thesis by blast
qed

section \<open>The label map of the watershed\<close>


lemma shape_zeros_like_bool:
  "shape0 (zeros_like_bool g) = shape0 g" "shape1 (zeros_like_bool g) = shape1 g"
  by (auto simp: zeros_like_bool_def shape0_def shape1_def split: list.splits)

lemma is_array_zeros_like_bool: "is_array g \<Longrightarrow> is_array (zeros_like_bool g)"
  unfolding is_array_def shape_zeros_like_bool by (auto simp: zeros_like_bool_def)

lemma pixel_zeros_like_bool:
  assumes "is_array g" "in_grid g p"
  shows "pixel (zeros_like_bool g) p = False"
  using assms is_array_row [of g "fst p"]
  by (simp add: pixel_def zeros_like_bool_def in_grid_def shape0_def)

lemma mark_peaks_result:
  assumes "is_array g" "\<forall>c \<in> set cs. in_grid g c"
  shows "\<exists>g'. mark_peaks cs g = Inr g' \<and> is_array g' \<and>
           shape0 g' = shape0 g \<and> shape1 g' = shape1 g \<and>
           (\<forall>p. in_grid g p \<longrightarrow> pixel g' p = (p \<in> set cs \<or> pixel g p))"
  using assms
proof (induction cs arbitrary: g)
  case Nil
  then show ?case by simp
next
  case (Cons c cs)
  obtain y x where c: "c = (y, x)" by (cases c)
  let ?g1 = "g[y := (g ! y)[x := True]]"
  from Cons.prems have cin: "in_grid g (y, x)" by (simp add: c)
  then have set1: "np_set_true g y x = Inr ?g1"
    by (simp add: np_set_true_def in_grid_def)
  have arr1: "is_array ?g1" by (rule is_array_row_update [OF Cons.prems(1)])
  have sh1: "shape0 ?g1 = shape0 g" "shape1 ?g1 = shape1 g" by (rule shape_row_update)+
  have in1: "\<forall>c \<in> set cs. in_grid ?g1 c"
    using Cons.prems(2) by (simp add: in_grid_shape_cong [OF sh1])
  from Cons.IH [OF arr1 in1] obtain g' where g':
    "mark_peaks cs ?g1 = Inr g'" "is_array g'"
    "shape0 g' = shape0 ?g1" "shape1 g' = shape1 ?g1"
    "\<forall>p. in_grid ?g1 p \<longrightarrow> pixel g' p = (p \<in> set cs \<or> pixel ?g1 p)"
    by blast
  have px: "pixel g' p = (p \<in> set (c # cs) \<or> pixel g p)" if "in_grid g p" for p
  proof -
    from that have "in_grid ?g1 p" by (simp add: in_grid_shape_cong [OF sh1])
    with g'(5) have "pixel g' p = (p \<in> set cs \<or> pixel ?g1 p)" by blast
    also have "pixel ?g1 p = (if p = (y, x) then True else pixel g p)"
      by (rule pixel_row_update [OF Cons.prems(1) cin that])
    finally show ?thesis by (auto simp: c)
  qed
  show ?case
    using g'(1,2,3,4) px by (simp add: c set1 sh1)
qed

lemma local_maxima_result:
  assumes "is_array D" "\<forall>c \<in> set cs. in_grid D c"
  shows "\<exists>lm. local_maxima D cs = Inr lm \<and> is_array lm \<and>
           shape0 lm = shape0 D \<and> shape1 lm = shape1 D \<and>
           (\<forall>p. in_grid D p \<longrightarrow> pixel lm p = (p \<in> set cs))"
proof -
  have arr: "is_array (zeros_like_bool D)" by (rule is_array_zeros_like_bool [OF assms(1)])
  have g: "in_grid (zeros_like_bool D) p = in_grid D p" for p
    by (simp add: in_grid_def shape_zeros_like_bool)
  from assms(2) have cin: "\<forall>c \<in> set cs. in_grid (zeros_like_bool D) c" by (simp add: g)
  from mark_peaks_result [OF arr cin] obtain lm where lm:
    "mark_peaks cs (zeros_like_bool D) = Inr lm" "is_array lm"
    "shape0 lm = shape0 (zeros_like_bool D)" "shape1 lm = shape1 (zeros_like_bool D)"
    "\<forall>p. in_grid (zeros_like_bool D) p \<longrightarrow>
       pixel lm p = (p \<in> set cs \<or> pixel (zeros_like_bool D) p)"
    by blast
  have "pixel lm p = (p \<in> set cs)" if "in_grid D p" for p
  proof -
    from that have "in_grid (zeros_like_bool D) p" by (simp add: g)
    with lm(5) have "pixel lm p = (p \<in> set cs \<or> pixel (zeros_like_bool D) p)" by blast
    with pixel_zeros_like_bool [OF assms(1) that] show ?thesis by simp
  qed
  with lm(1-4) show ?thesis
    by (simp add: local_maxima_def shape_zeros_like_bool)
qed

lemma shape_bool_image:
  "shape0 (bool_image g) = shape0 g" "shape1 (bool_image g) = shape1 g"
  by (auto simp: bool_image_def shape0_def shape1_def split: list.splits)

lemma pixel_bool_image:
  assumes "is_array g" "in_grid g p"
  shows "pixel (bool_image g) p = (if pixel g p then 1 else 0)"
  using assms is_array_row [of g "fst p"]
  by (simp add: pixel_def bool_image_def in_grid_def shape0_def)

lemma fold_max_Max: "fold max xs (a :: nat) = Max (insert a (set xs))"
proof (induction xs arbitrary: a)
  case Nil
  show ?case by simp
next
  case (Cons x xs)
  have "Max (insert (max x a) (set xs)) = Max (insert a (insert x (set xs)))"
  proof (cases "set xs = {}")
    case True
    then show ?thesis by (simp add: max.commute)
  next
    case False
    then show ?thesis by (simp add: max.assoc max.commute max.left_commute)
  qed
  with Cons show ?case by simp
qed

lemma np_max_positive_labels:
  assumes "concat g \<noteq> []"
  shows "np_max g = Inr (Max (insert 0 (set (positive_labels g))))"
proof -
  have "insert 0 (set (positive_labels g)) = insert 0 (set (concat g))"
    by (auto simp: set_positive_labels)
  with assms show ?thesis by (simp add: np_max_def fold_max_Max)
qed

lemma watershed_labels_dense:
  assumes lm: "is_array lm" "shape0 lm = shape0 dilated" "shape1 lm = shape1 dilated"
      "\<forall>p. in_grid dilated p \<longrightarrow> pixel lm p = (p \<in> set cs)"
    and peaks: "peaks_in_labels dilated cs"
    and mk: "is_marker_labeling c lm markers"
    and ws: "is_watershed markers dilated labels"
  shows "dense_labels labels"
proof -
  from mk have lab: "is_labeling c (bool_image lm) markers" and dm: "dense_labels markers"
    by (simp_all add: is_marker_labeling_def)
  from ws have arrL: "is_array labels" and shL: "same_shape labels markers"
    by (simp_all add: is_watershed_def)
  have arrM: "is_array markers" by (rule labeling_shape(1) [OF lab])
  have gB: "in_grid (bool_image lm) p = in_grid dilated p" for p
    by (simp add: in_grid_def shape_bool_image lm(2,3))
  have gLm: "in_grid lm p = in_grid dilated p" for p
    by (simp add: in_grid_def lm(2,3))
  have gM: "in_grid markers p = in_grid dilated p" for p
    using labeling_shape(3) [OF lab, of p] gB by simp
  have gL: "in_grid labels p = in_grid dilated p" for p
    using shL gM [of p] by (simp add: in_grid_def same_shape_def)
  have marker_pos: "0 < pixel markers p \<longleftrightarrow> p \<in> set cs" if p: "in_grid dilated p" for p
  proof -
    from p have pB: "in_grid (bool_image lm) p" and pLm: "in_grid lm p"
      by (simp_all add: gB gLm)
    have "0 < pixel markers p \<longleftrightarrow> pixel (bool_image lm) p \<noteq> 0"
      by (rule labeling_pos [OF lab pB])
    also have "\<dots> \<longleftrightarrow> pixel lm p"
      by (simp add: pixel_bool_image [OF lm(1) pLm])
    also have "\<dots> \<longleftrightarrow> p \<in> set cs" using lm(4) p by blast
    finally show ?thesis .
  qed
  have wsp: "pixel labels p = 0 \<or> pixel labels p \<in> set (positive_labels markers)"
      "pixel markers p \<noteq> 0 \<and> pixel dilated p \<noteq> 0 \<longrightarrow> pixel labels p = pixel markers p"
    if "in_grid dilated p" for p
  proof -
    from that have "in_grid markers p" by (simp add: gM)
    with ws have "(pixel labels p = 0 \<or> pixel labels p \<in> set (positive_labels markers)) \<and>
        (pixel markers p \<noteq> 0 \<and> pixel dilated p \<noteq> 0 \<longrightarrow> pixel labels p = pixel markers p)"
      unfolding is_watershed_def by blast
    then show "pixel labels p = 0 \<or> pixel labels p \<in> set (positive_labels markers)"
      "pixel markers p \<noteq> 0 \<and> pixel dilated p \<noteq> 0 \<longrightarrow> pixel labels p = pixel markers p"
      by blast+
  qed
  have sets: "set (positive_labels labels) = set (positive_labels markers)"
  proof (intro equalityI subsetI)
    fix l assume "l \<in> set (positive_labels labels)"
    then obtain p where p: "in_grid labels p" "0 < pixel labels p" "l = pixel labels p"
      unfolding positive_labels_pixels [OF arrL] by blast
    from p(1) have "in_grid dilated p" by (simp add: gL)
    from wsp(1) [OF this] p(2,3) show "l \<in> set (positive_labels markers)" by auto
  next
    fix l assume "l \<in> set (positive_labels markers)"
    then obtain p where p: "in_grid markers p" "0 < pixel markers p" "l = pixel markers p"
      unfolding positive_labels_pixels [OF arrM] by blast
    from p(1) have pD: "in_grid dilated p" by (simp add: gM)
    from marker_pos [OF pD] p(2) have "p \<in> set cs" by simp
    with peaks have "pixel dilated p \<noteq> 0" by (simp add: peaks_in_labels_def)
    with wsp(2) [OF pD] p(2) have e: "pixel labels p = pixel markers p" by simp
    have "p \<in> {p. in_grid labels p \<and> 0 < pixel labels p}"
      using pD p(2) e by (simp add: gL)
    then have "pixel labels p \<in> pixel labels ` {p. in_grid labels p \<and> 0 < pixel labels p}"
      by (rule imageI)
    then show "l \<in> set (positive_labels labels)"
      unfolding positive_labels_pixels [OF arrL] by (simp only: p(3) e)
  qed
  have eq: "positive_labels labels = positive_labels markers"
    using sets by (intro sorted_distinct_set_unique sorted_positive_labels distinct_positive_labels)
  from dm obtain n where n: "np_max markers = Inr n" "positive_labels markers = [1..<Suc n]"
    by (auto simp: dense_labels_def split: sum.splits)
  from n(1) have neM: "concat markers \<noteq> []" by (auto simp: np_max_def split: if_splits)
  have "shape0 markers * shape1 markers \<noteq> 0"
    using neM unfolding empty_grid_iff [OF arrM] .
  with shL have "shape0 labels * shape1 labels \<noteq> 0" by (simp add: same_shape_def)
  then have neL: "concat labels \<noteq> []" unfolding empty_grid_iff [OF arrL] .
  have "np_max labels = Inr (Max (insert 0 (set (positive_labels labels))))"
    by (rule np_max_positive_labels [OF neL])
  also have "\<dots> = np_max markers"
    unfolding sets by (rule np_max_positive_labels [OF neM, symmetric])
  finally have "np_max labels = Inr n" using n(1) by simp
  with eq n(2) show ?thesis by (simp add: dense_labels_def)
qed

text \<open>
  Claim C1. For every analysed image: the loop of \<open>detect_nuclei\<close> marks the peaks, and
  for every marker image and label map that \<open>measure.label\<close> and \<open>watershed\<close> may
  return for them, the analysis returns a result in which the nuclei within and outside
  myotubes add up to \<open>total_nuclei\<close>, the nuclei count that \<open>detect_nuclei\<close> reports
  (the largest label) is \<open>total_nuclei\<close>, and the lists of centroids and of flags both
  have that length.
\<close>

theorem relationship_counts_consistent:
  assumes "is_array dist_transform" "same_shape dist_transform dilated"
    and "peaks_in_labels dilated coordinates"
  shows "\<exists>local_max. local_maxima dist_transform coordinates = Inr local_max \<and>
           (\<forall>markers labels.
              is_marker_labeling c local_max markers \<and> is_watershed markers dilated labels \<longrightarrow>
              (\<exists>r. analyze_relationship labels m = Inr r \<and>
                 res_nuclei_within_myotubes r + res_nuclei_outside_myotubes r =
                   res_total_nuclei r \<and>
                 nuclei_count labels = Inr (res_total_nuclei r) \<and>
                 length (res_nuclei_centroids r) = res_total_nuclei r \<and>
                 length (res_nuclei_in_myotube r) = res_total_nuclei r))"
proof -
  from assms(2) have sh: "shape0 dist_transform = shape0 dilated"
    "shape1 dist_transform = shape1 dilated"
    by (simp_all add: same_shape_def)
  have gD: "in_grid dist_transform p = in_grid dilated p" for p
    by (simp add: in_grid_def sh)
  from assms(3) have cin: "\<forall>c \<in> set coordinates. in_grid dist_transform c"
    by (simp add: peaks_in_labels_def gD)
  from local_maxima_result [OF assms(1) cin] obtain lm where lm:
    "local_maxima dist_transform coordinates = Inr lm" "is_array lm"
    "shape0 lm = shape0 dist_transform" "shape1 lm = shape1 dist_transform"
    "\<forall>p. in_grid dist_transform p \<longrightarrow> pixel lm p = (p \<in> set coordinates)"
    by blast
  have px: "\<forall>p. in_grid dilated p \<longrightarrow> pixel lm p = (p \<in> set coordinates)"
    using lm(5) by (simp add: gD)
  have "\<exists>r. analyze_relationship labels m = Inr r \<and>
          res_nuclei_within_myotubes r + res_nuclei_outside_myotubes r = res_total_nuclei r \<and>
          nuclei_count labels = Inr (res_total_nuclei r) \<and>
          length (res_nuclei_centroids r) = res_total_nuclei r \<and>
          length (res_nuclei_in_myotube r) = res_total_nuclei r"
    if "is_marker_labeling c lm markers \<and> is_watershed markers dilated labels"
    for markers labels
  proof -
    from that have mk: "is_marker_labeling c lm markers"
      and ws: "is_watershed markers dilated labels" by simp_all
    have "dense_labels labels"
      by (rule watershed_labels_dense [OF lm(2) _ _ px assms(3) mk ws]) (simp_all add: lm(3,4) sh)
    then show ?thesis by (rule counts_of_dense_labels)
  qed
  with lm(1) show ?thesis by blast
qed

subsection \<open>A one-row image with two nuclei\<close>


lemma below_five: "a < 5 \<Longrightarrow> a = 0 \<or> a = 1 \<or> a = 2 \<or> a = 3 \<or> a = (4 :: nat)"
  by arith

lemma example_marker_labeling:
  "is_labeling 2 [[0, 1, 0, 0, 1]] [[0, 1, 0, 0, 2]]"
proof (rule one_row_labeling)
  let ?row = "[0, 1, 0, 0, 1 :: nat]"
  let ?lrow = "[0, 1, 0, 0, 2 :: nat]"
  show "length ?lrow = length ?row" by simp
  show "(1 :: nat) \<le> 2" by simp
  show "\<forall>a < length ?row. ?lrow ! a = 0 \<longleftrightarrow> ?row ! a = 0"
  proof (intro allI impI)
    fix a assume "a < length ?row"
    then have "a < 5" by simp
    from below_five [OF this] show "?lrow ! a = 0 \<longleftrightarrow> ?row ! a = 0" by auto
  qed
  show "\<forall>a. Suc a < length ?row \<and> ?row ! a \<noteq> 0 \<and> ?row ! a = ?row ! Suc a \<longrightarrow>
          ?lrow ! a = ?lrow ! Suc a"
  proof (intro allI impI)
    fix a assume h: "Suc a < length ?row \<and> ?row ! a \<noteq> 0 \<and> ?row ! a = ?row ! Suc a"
    then have "a < 5" by simp
    from below_five [OF this] h show "?lrow ! a = ?lrow ! Suc a" by auto
  qed
  show "\<forall>a b. a < b \<and> b < length ?row \<and> ?row ! a \<noteq> 0 \<and> ?lrow ! a = ?lrow ! b \<longrightarrow>
          (\<forall>k. a \<le> k \<and> k \<le> b \<longrightarrow> ?row ! k = ?row ! a)"
  proof (intro allI impI)
    fix a b k
    assume h: "a < b \<and> b < length ?row \<and> ?row ! a \<noteq> 0 \<and> ?lrow ! a = ?lrow ! b"
      and k: "a \<le> k \<and> k \<le> b"
    then have "a < 5" "b < 5" by simp_all
    from below_five [OF this(1)] below_five [OF this(2)] h have False by auto
    then show "?row ! k = ?row ! a" ..
  qed
qed

lemma example_watershed:
  "is_watershed [[0, 1, 0, 0, 2]] [[255, 255, 255, 0, 255]] [[1, 1, 1, 0, 2]]"
proof -
  have p: "positive_labels [[0, 1, 0, 0, 2]] = [1, 2]" by code_simp
  have "(pixel [[1, 1, 1, 0, 2 :: nat]] q = 0 \<or> pixel [[1, 1, 1, 0, 2 :: nat]] q \<in> set [1, 2]) \<and>
        (pixel [[0, 1, 0, 0, 2 :: nat]] q \<noteq> 0 \<and> pixel [[255, 255, 255, 0, 255 :: nat]] q \<noteq> 0 \<longrightarrow>
           pixel [[1, 1, 1, 0, 2 :: nat]] q = pixel [[0, 1, 0, 0, 2]] q) \<and>
        (pixel [[255, 255, 255, 0, 255 :: nat]] q = 0 \<longrightarrow> pixel [[1, 1, 1, 0, 2 :: nat]] q = 0)"
    if "in_grid [[0, 1, 0, 0, 2 :: nat]] q" for q
  proof -
    from that obtain a where q: "q = (0, a)" "a < 5"
      by (cases q) (simp add: one_row_grid)
    from below_five [OF q(2)] show ?thesis
      by (auto simp: q(1) one_row_grid)
  qed
  then show ?thesis
    unfolding is_watershed_def p
    by (simp add: is_array_def same_shape_def shape0_def shape1_def)
qed

theorem relationship_counts_consistent_witness:
  "is_array [[1 / 2, 1, 1 / 2, 0, 1 :: rat]] \<and>
   same_shape [[1 / 2, 1, 1 / 2, 0, 1 :: rat]] [[255, 255, 255, 0, 255 :: nat]] \<and>
   peaks_in_labels [[255, 255, 255, 0, 255]] [(0, 1), (0, 4)] \<and>
   (\<exists>local_max.
      local_maxima [[1 / 2, 1, 1 / 2, 0, 1 :: rat]] [(0, 1), (0, 4)] = Inr local_max \<and>
      is_marker_labeling 2 local_max [[0, 1, 0, 0, 2]] \<and>
      is_watershed [[0, 1, 0, 0, 2]] [[255, 255, 255, 0, 255]] [[1, 1, 1, 0, 2]] \<and>
      (\<exists>r. analyze_relationship [[1, 1, 1, 0, 2]] [[255, 255, 0, 0, 0]] = Inr r \<and>
         res_nuclei_within_myotubes r + res_nuclei_outside_myotubes r = res_total_nuclei r \<and>
         nuclei_count [[1, 1, 1, 0, 2]] = Inr (res_total_nuclei r) \<and>
         length (res_nuclei_centroids r) = res_total_nuclei r \<and>
         length (res_nuclei_in_myotube r) = res_total_nuclei r))"
proof -
  let ?D = "[[1 / 2, 1, 1 / 2, 0, 1 :: rat]]"
  let ?dil = "[[255, 255, 255, 0, 255 :: nat]]"
  let ?cs = "[(0, 1), (0, 4) :: nat \<times> nat]"
  let ?lm = "[[False, True, False, False, True]]"
  have a: "is_array ?D" by (simp add: is_array_def shape1_def)
  have b: "same_shape ?D ?dil" by (simp add: same_shape_def shape0_def shape1_def)
  have c: "peaks_in_labels ?dil ?cs"
    by (simp add: peaks_in_labels_def one_row_grid pixel_def)
  have e: "local_maxima ?D ?cs = Inr ?lm" by code_simp
  have bi: "bool_image ?lm = [[0, 1, 0, 0, 1]]" by (simp add: bool_image_def)
  have d: "dense_labels [[0, 1, 0, 0, 2]]" by code_simp
  have mk: "is_marker_labeling 2 ?lm [[0, 1, 0, 0, 2]]"
    unfolding is_marker_labeling_def bi using example_marker_labeling d by simp
  from relationship_counts_consistent [OF a b c, of 2 "[[255, 255, 0, 0, 0]]"]
  obtain lm where lm: "local_maxima ?D ?cs = Inr lm"
    and all: "\<forall>markers labels.
      is_marker_labeling 2 lm markers \<and> is_watershed markers ?dil labels \<longrightarrow>
      (\<exists>r. analyze_relationship labels [[255, 255, 0, 0, 0]] = Inr r \<and>
         res_nuclei_within_myotubes r + res_nuclei_outside_myotubes r = res_total_nuclei r \<and>
         nuclei_count labels = Inr (res_total_nuclei r) \<and>
         length (res_nuclei_centroids r) = res_total_nuclei r \<and>
         length (res_nuclei_in_myotube r) = res_total_nuclei r)"
    by blast
  from lm e have lmv: "lm = ?lm" by simp
  from all mk example_watershed have "\<exists>r.
    analyze_relationship [[1, 1, 1, 0, 2]] [[255, 255, 0, 0, 0]] = Inr r \<and>
    res_nuclei_within_myotubes r + res_nuclei_outside_myotubes r = res_total_nuclei r \<and>
    nuclei_count [[1, 1, 1, 0, 2]] = Inr (res_total_nuclei r) \<and>
    length (res_nuclei_centroids r) = res_total_nuclei r \<and>
    length (res_nuclei_in_myotube r) = res_total_nuclei r"
    unfolding lmv by blast
  with a b c lm mk example_watershed show ?thesis unfolding lmv by blast
qed

section \<open>The adaptive threshold of the myotube channel\<close>


lemma shape_adaptiveThreshold:
  "shape0 (adaptiveThreshold src maxValue method thresholdType blockSize C) = shape0 src"
  "shape0 src \<noteq> 0 \<Longrightarrow>
   shape1 (adaptiveThreshold src maxValue method thresholdType blockSize C) = shape1 src"
  by (simp_all add: adaptiveThreshold_def shape0_def shape1_def upt_conv_Cons split: list.splits)

subsection \<open>The Gaussian window\<close>





subsection \<open>A smoothed step in a one-row image\<close>



















section \<open>A nuclei channel without foreground\<close>

lemma all_zeroD: "all_zero g \<Longrightarrow> in_grid g p \<Longrightarrow> pixel g p = 0"
  unfolding all_zero_def by blast

lemma shape_map_map:
  "shape0 (map (map f) g) = shape0 g" "shape1 (map (map f) g) = shape1 g"
  by (auto simp: shape0_def shape1_def split: list.splits)

lemma shape_tabulate:
  "shape0 (map (\<lambda>y. map (f y) [0..<shape1 g]) [0..<shape0 g]) = shape0 g"
  "shape1 (map (\<lambda>y. map (f y) [0..<shape1 g]) [0..<shape0 g]) = shape1 g"
proof -
  show "shape0 (map (\<lambda>y. map (f y) [0..<shape1 g]) [0..<shape0 g]) = shape0 g"
    by (simp add: shape0_def)
  show "shape1 (map (\<lambda>y. map (f y) [0..<shape1 g]) [0..<shape0 g]) = shape1 g"
  proof (cases g)
    case Nil
    then show ?thesis by (simp add: shape0_def shape1_def)
  next
    case (Cons r rs)
    then have "[0..<shape0 g] = 0 # [Suc 0..<shape0 g]"
      by (subst upt_rec) (simp add: shape0_def)
    then show ?thesis by (simp add: shape1_def Cons)
  qed
qed

lemma is_array_tabulate:
  "is_array (map (\<lambda>y. map (f y) [0..<shape1 g]) [0..<shape0 g])"
  unfolding is_array_def shape_tabulate by auto

lemma pixel_tabulate:
  assumes "in_grid g p"
  shows "pixel (map (\<lambda>y. map (f y) [0..<shape1 g]) [0..<shape0 g]) p = f (fst p) (snd p)"
  using assms by (simp add: pixel_def in_grid_def)

lemma fold_min_zero: "fold min xs (0 :: nat) = 0"
  by (induction xs) simp_all

lemma fold_max_zero: "\<forall>v \<in> set xs. v = 0 \<Longrightarrow> fold max xs (0 :: nat) = 0"
  by (induction xs) simp_all

lemma window3_pixels:
  assumes "v \<in> set (window3 g y x)"
  shows "\<exists>p. in_grid g p \<and> v = pixel g p"
proof -
  from assms obtain y' x' where "y' < shape0 g" "x' < shape1 g" "v = g ! y' ! x'"
    by (auto simp: window3_def)
  then have "in_grid g (y', x') \<and> v = pixel g (y', x')" by (simp add: in_grid_def pixel_def)
  then show ?thesis ..
qed

lemma shape_threshold_binary:
  "shape0 (threshold_binary src t m) = shape0 src" "shape1 (threshold_binary src t m) = shape1 src"
  unfolding threshold_binary_def by (rule shape_map_map)+

lemma all_zero_threshold_binary:
  assumes "is_array src" "all_zero src"
  shows "all_zero (threshold_binary src t m)"
  unfolding all_zero_def
proof (intro allI impI)
  fix p assume "in_grid (threshold_binary src t m) p"
  then have p: "in_grid src p" by (simp add: in_grid_def shape_threshold_binary)
  with assms(2) have z: "pixel src p = 0" by (rule all_zeroD)
  from p is_array_row [OF assms(1), of "fst p"]
  have "pixel (threshold_binary src t m) p = (if t < pixel src p then m else 0)"
    by (simp add: threshold_binary_def pixel_def in_grid_def shape0_def)
  with z show "pixel (threshold_binary src t m) p = 0" by simp
qed

lemma shape_erode: "shape0 (erode src) = shape0 src" "shape1 (erode src) = shape1 src"
  unfolding erode_def by (rule shape_tabulate)+

lemma shape_dilate: "shape0 (dilate src) = shape0 src" "shape1 (dilate src) = shape1 src"
  unfolding dilate_def by (rule shape_tabulate)+

lemma all_zero_erode:
  assumes "all_zero src"
  shows "all_zero (erode src)"
  unfolding all_zero_def
proof (intro allI impI)
  fix p assume "in_grid (erode src) p"
  then have p: "in_grid src p" by (simp add: in_grid_def shape_erode)
  from all_zeroD [OF assms p] have "src ! fst p ! snd p = 0" by (simp add: pixel_def)
  then show "pixel (erode src) p = 0"
    unfolding erode_def pixel_tabulate [OF p] by (simp add: fold_min_zero)
qed

lemma all_zero_dilate:
  assumes "all_zero src"
  shows "all_zero (dilate src)"
  unfolding all_zero_def
proof (intro allI impI)
  fix p assume "in_grid (dilate src) p"
  then have p: "in_grid src p" by (simp add: in_grid_def shape_dilate)
  from all_zeroD [OF assms p] have c: "src ! fst p ! snd p = 0" by (simp add: pixel_def)
  have "\<forall>v \<in> set (window3 src (fst p) (snd p)). v = 0"
  proof
    fix v assume "v \<in> set (window3 src (fst p) (snd p))"
    from window3_pixels [OF this] obtain q where "in_grid src q" "v = pixel src q" by blast
    with all_zeroD [OF assms] show "v = 0" by simp
  qed
  then show "pixel (dilate src) p = 0"
    unfolding dilate_def pixel_tabulate [OF p] by (simp add: c fold_max_zero)
qed

lemma all_zero_gaussian_blur:
  assumes "all_zero src" "is_gaussian_blur src dst"
  shows "all_zero dst"
  unfolding all_zero_def
proof (intro allI impI)
  fix p assume "in_grid dst p"
  with assms(2) obtain q where "in_grid src q" "pixel dst p \<le> pixel src q"
    unfolding is_gaussian_blur_def by blast
  with all_zeroD [OF assms(1)] show "pixel dst p = 0" by simp
qed

lemma nuclei_foreground_zero:
  assumes "all_zero blue_channel" "is_gaussian_blur blue_channel blurred"
  shows "all_zero (nuclei_foreground blurred t)"
    "shape0 (nuclei_foreground blurred t) = shape0 blue_channel"
    "shape1 (nuclei_foreground blurred t) = shape1 blue_channel"
proof -
  from assms(2) have arr: "is_array blurred" and sh: "same_shape blurred blue_channel"
    by (simp_all add: is_gaussian_blur_def)
  have "all_zero blurred" by (rule all_zero_gaussian_blur [OF assms])
  then have "all_zero (threshold_binary blurred t 255)"
    by (rule all_zero_threshold_binary [OF arr])
  then have "all_zero (erode (threshold_binary blurred t 255))" by (rule all_zero_erode)
  then have "all_zero (dilate (erode (threshold_binary blurred t 255)))"
    by (rule all_zero_dilate)
  then show "all_zero (nuclei_foreground blurred t)" by (simp add: nuclei_foreground_def)
  show "shape0 (nuclei_foreground blurred t) = shape0 blue_channel"
    "shape1 (nuclei_foreground blurred t) = shape1 blue_channel"
    using sh
    by (simp_all add: nuclei_foreground_def shape_dilate shape_erode shape_threshold_binary
        same_shape_def)
qed

lemma all_zero_count:
  assumes "is_array labels" "all_zero labels" "dense_labels labels"
  shows "nuclei_count labels = Inr 0"
proof -
  from assms(3) obtain n where n: "np_max labels = Inr n" "positive_labels labels = [1..<Suc n]"
    by (auto simp: dense_labels_def split: sum.splits)
  have "{p. in_grid labels p \<and> 0 < pixel labels p} = {}"
    using all_zeroD [OF assms(2)] by auto
  then have "set (positive_labels labels) = {}"
    unfolding positive_labels_pixels [OF assms(1)] by simp
  then have "positive_labels labels = []" by simp
  with n(2) have "[1..<Suc n] = []" by (simp only:)
  then have "Suc n = 0 \<or> Suc n \<le> 1" by (simp only: upt_eq_Nil_conv)
  then have "n = 0" by simp
  with n(1) show ?thesis by (simp add: nuclei_count_def)
qed

text \<open>
  Claim C8. When every pixel of the nuclei channel is 0, the foreground after
  thresholding and cleaning is empty whatever threshold value Otsu's method returns;
  \<open>peak_local_max\<close> finds no local maximum, the loop leaves \<open>local_max\<close> without a
  \<open>True\<close> pixel and raises nothing, and for every marker image and label map that
  \<open>measure.label\<close> and \<open>watershed\<close> may return the label map is 0 everywhere and
  \<open>nuclei_count\<close> is 0.
\<close>

theorem zero_channel_no_nuclei:
  assumes "0 < shape0 blue_channel * shape1 blue_channel"
    and "all_zero blue_channel"
    and "is_gaussian_blur blue_channel blurred"
    and "is_array dist_transform"
    and "same_shape dist_transform (nuclei_foreground blurred threshold_value)"
    and "peaks_in_labels (nuclei_foreground blurred threshold_value) coordinates"
  shows "all_zero (nuclei_foreground blurred threshold_value) \<and> coordinates = [] \<and>
         (\<exists>local_max. local_maxima dist_transform coordinates = Inr local_max \<and>
            (\<forall>p. in_grid local_max p \<longrightarrow> \<not> pixel local_max p) \<and>
            (\<forall>markers labels.
               is_marker_labeling c local_max markers \<and>
               is_watershed markers (nuclei_foreground blurred threshold_value) labels \<longrightarrow>
               all_zero labels \<and> nuclei_count labels = Inr 0))"
proof -
  let ?D = "nuclei_foreground blurred threshold_value"
  have zD: "all_zero ?D" by (rule nuclei_foreground_zero(1) [OF assms(2,3)])
  from assms(5) have sh: "shape0 dist_transform = shape0 ?D" "shape1 dist_transform = shape1 ?D"
    by (simp_all add: same_shape_def)
  have gD: "in_grid dist_transform p = in_grid ?D p" for p
    by (simp add: in_grid_def sh)
  have none: "coordinates = []"
  proof (cases coordinates)
    case Nil
    then show ?thesis .
  next
    case (Cons q qs)
    with assms(6) have "in_grid ?D q" "pixel ?D q \<noteq> 0" by (simp_all add: peaks_in_labels_def)
    with all_zeroD [OF zD] show ?thesis by simp
  qed
  have cin: "\<forall>q \<in> set coordinates. in_grid dist_transform q" by (simp add: none)
  from local_maxima_result [OF assms(4) cin] obtain lm where lm:
    "local_maxima dist_transform coordinates = Inr lm" "is_array lm"
    "shape0 lm = shape0 dist_transform" "shape1 lm = shape1 dist_transform"
    "\<forall>p. in_grid dist_transform p \<longrightarrow> pixel lm p = (p \<in> set coordinates)"
    by blast
  have gLm: "in_grid lm p = in_grid ?D p" for p
    by (simp add: in_grid_def lm(3,4) sh)
  have px: "\<forall>p. in_grid ?D p \<longrightarrow> pixel lm p = (p \<in> set coordinates)"
    using lm(5) by (simp add: gD)
  have dark: "\<forall>p. in_grid lm p \<longrightarrow> \<not> pixel lm p"
    using px by (simp add: gLm none)
  have "all_zero labels \<and> nuclei_count labels = Inr 0"
    if "is_marker_labeling c lm markers \<and> is_watershed markers ?D labels"
    for markers labels
  proof -
    from that have mk: "is_marker_labeling c lm markers"
      and ws: "is_watershed markers ?D labels" by simp_all
    from mk have lab: "is_labeling c (bool_image lm) markers"
      by (simp add: is_marker_labeling_def)
    from ws have arrL: "is_array labels" and shL: "same_shape labels markers"
      by (simp_all add: is_watershed_def)
    have gM: "in_grid markers p = in_grid ?D p" for p
      using labeling_shape(3) [OF lab, of p]
      by (simp add: in_grid_def shape_bool_image lm(3,4) sh)
    have gL: "in_grid labels p = in_grid ?D p" for p
      using shL gM [of p] by (simp add: in_grid_def same_shape_def)
    have dense: "dense_labels labels"
      by (rule watershed_labels_dense [OF lm(2) _ _ px assms(6) mk ws])
        (simp_all add: lm(3,4) sh)
    have zL: "all_zero labels"
      unfolding all_zero_def
    proof (intro allI impI)
      fix p assume "in_grid labels p"
      then have pD: "in_grid ?D p" by (simp add: gL)
      then have pM: "in_grid markers p" by (simp add: gM)
      from ws have "\<forall>p. in_grid markers p \<longrightarrow> (pixel ?D p = 0 \<longrightarrow> pixel labels p = 0)"
        unfolding is_watershed_def by blast
      with pM have "pixel ?D p = 0 \<longrightarrow> pixel labels p = 0" by blast
      with all_zeroD [OF zD pD] show "pixel labels p = 0" by simp
    qed
    from zL all_zero_count [OF arrL zL dense] show ?thesis ..
  qed
  with zD none lm(1) dark show ?thesis by blast
qed

subsection \<open>A black one-row image\<close>

lemma all_zeroI:
  assumes "is_array g" "\<forall>v \<in> set (concat g). v = 0"
  shows "all_zero g"
  unfolding all_zero_def
proof (intro allI impI)
  fix p assume "in_grid g p"
  then have "pixel g p \<in> {g ! y ! x | y x. y < shape0 g \<and> x < shape1 g}"
    by (auto simp: in_grid_def pixel_def)
  then have "pixel g p \<in> set (concat g)" unfolding set_concat_grid [OF assms(1)] .
  with assms(2) show "pixel g p = 0" by blast
qed

lemma gaussian_blur_constant:
  assumes "is_array g"
  shows "is_gaussian_blur g g"
  unfolding is_gaussian_blur_def using assms by (auto simp: same_shape_def)

lemma zero_labeling:
  assumes "1 \<le> c"
  shows "is_labeling c [replicate n 0] [replicate n 0]"
proof (rule one_row_labeling)
  show "length (replicate n (0 :: nat)) = length (replicate n (0 :: nat))" by simp
  show "1 \<le> c" by (rule assms)
  show "\<forall>a < length (replicate n (0 :: nat)).
          replicate n (0 :: nat) ! a = 0 \<longleftrightarrow> replicate n (0 :: nat) ! a = 0"
    by simp
  show "\<forall>a. Suc a < length (replicate n (0 :: nat)) \<and> replicate n (0 :: nat) ! a \<noteq> 0 \<and>
          replicate n (0 :: nat) ! a = replicate n 0 ! Suc a \<longrightarrow>
          replicate n (0 :: nat) ! a = replicate n 0 ! Suc a"
    by simp
  show "\<forall>a b. a < b \<and> b < length (replicate n (0 :: nat)) \<and> replicate n (0 :: nat) ! a \<noteq> 0 \<and>
          replicate n (0 :: nat) ! a = replicate n 0 ! b \<longrightarrow>
          (\<forall>k. a \<le> k \<and> k \<le> b \<longrightarrow> replicate n (0 :: nat) ! k = replicate n 0 ! a)"
    by simp
qed

lemma zero_watershed:
  assumes "is_array g" "all_zero g"
  shows "is_watershed g g g"
proof -
  have "(pixel g p = 0 \<or> pixel g p \<in> set (positive_labels g)) \<and>
        (pixel g p \<noteq> 0 \<and> pixel g p \<noteq> 0 \<longrightarrow> pixel g p = pixel g p) \<and>
        (pixel g p = 0 \<longrightarrow> pixel g p = 0)" if "in_grid g p" for p
    using all_zeroD [OF assms(2) that] by simp
  then show ?thesis
    unfolding is_watershed_def using assms(1) by (simp add: same_shape_def)
qed

theorem zero_channel_no_nuclei_witness:
  "0 < shape0 [[0, 0, 0 :: nat]] * shape1 [[0, 0, 0 :: nat]] \<and>
   all_zero [[0, 0, 0]] \<and>
   is_gaussian_blur [[0, 0, 0]] [[0, 0, 0]] \<and>
   is_array [[0, 0, 0 :: rat]] \<and>
   same_shape [[0, 0, 0 :: rat]] (nuclei_foreground [[0, 0, 0]] 0) \<and>
   peaks_in_labels (nuclei_foreground [[0, 0, 0]] 0) [] \<and>
   nuclei_foreground [[0, 0, 0]] 0 = [[0, 0, 0]] \<and>
   local_maxima [[0, 0, 0 :: rat]] [] = Inr [[False, False, False]] \<and>
   is_marker_labeling 2 [[False, False, False]] [[0, 0, 0]] \<and>
   is_watershed [[0, 0, 0]] (nuclei_foreground [[0, 0, 0]] 0) [[0, 0, 0]] \<and>
   nuclei_count [[0, 0, 0]] = Inr 0"
proof -
  let ?Z = "[[0, 0, 0 :: nat]]"
  let ?D = "[[0, 0, 0 :: rat]]"
  let ?lm = "[[False, False, False]]"
  have rep: "?Z = [replicate 3 0]" by (simp add: numeral_3_eq_3)
  have arr: "is_array ?Z" by (simp add: is_array_def shape1_def)
  have a: "0 < shape0 ?Z * shape1 ?Z" by (simp add: shape0_def shape1_def)
  have b: "all_zero ?Z" by (rule all_zeroI [OF arr]) simp
  have c: "is_gaussian_blur ?Z ?Z" by (rule gaussian_blur_constant [OF arr])
  have f: "nuclei_foreground ?Z 0 = ?Z" by code_simp
  have d: "is_array ?D" by (simp add: is_array_def shape1_def)
  have e: "same_shape ?D (nuclei_foreground ?Z 0)"
    unfolding f by (simp add: same_shape_def shape0_def shape1_def)
  have g: "peaks_in_labels (nuclei_foreground ?Z 0) []" by (simp add: peaks_in_labels_def)
  have h: "local_maxima ?D [] = Inr ?lm" by code_simp
  have bi: "bool_image ?lm = ?Z" by (simp add: bool_image_def)
  have dl: "dense_labels ?Z" by code_simp
  have mk: "is_marker_labeling 2 ?lm ?Z"
    unfolding is_marker_labeling_def bi using zero_labeling [of 2 3] dl by (simp add: rep)
  have ws: "is_watershed ?Z (nuclei_foreground ?Z 0) ?Z"
    unfolding f by (rule zero_watershed [OF arr b])
  from zero_channel_no_nuclei [OF a b c d e g, of 2]
  obtain lm where lm: "local_maxima ?D [] = Inr lm"
    and all: "\<forall>markers labels.
      is_marker_labeling 2 lm markers \<and> is_watershed markers (nuclei_foreground ?Z 0) labels \<longrightarrow>
      all_zero labels \<and> nuclei_count labels = Inr 0"
    by blast
  from lm h have lmv: "lm = ?lm" by simp
  from all mk ws have "nuclei_count ?Z = Inr 0" unfolding lmv by blast
  with a b c d e g f h mk ws show ?thesis by blast
qed

end
